theory Spec2Isabelle
  imports Complex_Main "HOL-Library.Word" "HOL-Library.AList"
begin

unbundle bit_operations_syntax

section \<open>Text, bytes and the platform functions the stream transformer calls\<close>

text \<open>
  The transformer \<^verbatim>\<open>transformAgentStreamToUIStream\<close> of the chat route reads
  \<^verbatim>\<open>Uint8Array\<close> chunks and works on JavaScript strings. A chunk is a list of
  bytes; a JavaScript string is a list of UTF-16 code units.
\<close>

type_synonym byte = "8 word"
type_synonym jsstring = "16 word list"

definition lit :: "string \<Rightarrow> jsstring" where
  \<comment> \<open>a source-code string literal (Latin-1 characters only) as a JavaScript string\<close>
  "lit s = map of_char s"

definition bytes_of :: "string \<Rightarrow> byte list" where
  \<comment> \<open>the bytes of an ASCII text, as the network delivers them\<close>
  "bytes_of s = map of_char s"

definition startsWith :: "jsstring \<Rightarrow> jsstring \<Rightarrow> bool" where
  \<comment> \<open>\<^verbatim>\<open>s.startsWith(p)\<close>\<close>
  "startsWith s p = (take (length p) s = p)"

definition js_space :: "16 word \<Rightarrow> bool" where
  \<comment> \<open>ECMAScript WhiteSpace and LineTerminator code units, the ones \<^verbatim>\<open>trim\<close> removes\<close>
  "js_space c = (c \<in> {0x9, 0xA, 0xB, 0xC, 0xD, 0x20, 0xA0, 0x1680, 0x2000, 0x2001, 0x2002,
      0x2003, 0x2004, 0x2005, 0x2006, 0x2007, 0x2008, 0x2009, 0x200A, 0x2028, 0x2029, 0x202F,
      0x205F, 0x3000, 0xFEFF})"

definition js_trim :: "jsstring \<Rightarrow> jsstring" where
  \<comment> \<open>\<^verbatim>\<open>s.trim()\<close>\<close>
  "js_trim s = rev (dropWhile js_space (rev (dropWhile js_space s)))"

subsection \<open>TextDecoder in streaming mode\<close>

text \<open>
  \<^verbatim>\<open>new TextDecoder()\<close> is the platform's UTF-8 decoder; it is not code of the repository.
  It is modelled after the WHATWG Encoding Standard: the decoder consumes one byte at a time
  and keeps the code point under construction, the number of continuation bytes seen and
  needed, and the bounds of the next continuation byte. In replacement mode a malformed
  sequence yields U+FFFD, and the byte that ended it is processed again from the initial
  state. A leading byte-order mark is dropped once (\<^verbatim>\<open>ignoreBOM\<close> is false). Every call
  of the transformer is \<^verbatim>\<open>decode(value, { stream: true })\<close>, so the decoder is never
  flushed or reset and its state persists from chunk to chunk.
\<close>

record utf8_decoder =
  code_point :: nat
  bytes_seen :: nat
  bytes_needed :: nat
  lower_boundary :: byte
  upper_boundary :: byte

definition utf8_init :: utf8_decoder where
  "utf8_init = \<lparr>code_point = 0, bytes_seen = 0, bytes_needed = 0,
     lower_boundary = 0x80, upper_boundary = 0xBF\<rparr>"

definition utf8_lead :: "byte \<Rightarrow> utf8_decoder \<times> nat list" where
  \<comment> \<open>the handler when no continuation byte is needed, which is when the decoder is in its
      initial state; the result is the new state and the code points emitted\<close>
  "utf8_lead b =
     (if b \<le> 0x7F then (utf8_init, [unat b])
      else if 0xC2 \<le> b \<and> b \<le> 0xDF then
        (utf8_init\<lparr>bytes_needed := 1, code_point := unat (b AND 0x1F)\<rparr>, [])
      else if 0xE0 \<le> b \<and> b \<le> 0xEF then
        (utf8_init\<lparr>lower_boundary := (if b = 0xE0 then 0xA0 else 0x80),
                    upper_boundary := (if b = 0xED then 0x9F else 0xBF),
                    bytes_needed := 2, code_point := unat (b AND 0xF)\<rparr>, [])
      else if 0xF0 \<le> b \<and> b \<le> 0xF4 then
        (utf8_init\<lparr>lower_boundary := (if b = 0xF0 then 0x90 else 0x80),
                    upper_boundary := (if b = 0xF4 then 0x8F else 0xBF),
                    bytes_needed := 3, code_point := unat (b AND 0x7)\<rparr>, [])
      else (utf8_init, [0xFFFD]))"

definition utf8_handler :: "utf8_decoder \<Rightarrow> byte \<Rightarrow> utf8_decoder \<times> nat list" where
  "utf8_handler d b =
     (if bytes_needed d = 0 then utf8_lead b
      else if b < lower_boundary d \<or> upper_boundary d < b then
        (case utf8_lead b of (d', out) \<Rightarrow> (d', 0xFFFD # out))
      else
        (let cp = code_point d * 64 + unat (b AND 0x3F);
             seen = bytes_seen d + 1
         in if seen \<noteq> bytes_needed d then
              (d\<lparr>lower_boundary := 0x80, upper_boundary := 0xBF,
                 code_point := cp, bytes_seen := seen\<rparr>, [])
            else (utf8_init, [cp])))"

definition code_units :: "nat \<Rightarrow> jsstring" where
  \<comment> \<open>a code point as UTF-16: itself, or a surrogate pair above the basic plane\<close>
  "code_units cp =
     (if cp < 0x10000 then [of_nat cp]
      else [of_nat (0xD800 + (cp - 0x10000) div 0x400), of_nat (0xDC00 + (cp - 0x10000) mod 0x400)])"

record text_decoder =
  utf8 :: utf8_decoder
  bom_seen :: bool

definition text_decoder_init :: text_decoder where
  "text_decoder_init = \<lparr>utf8 = utf8_init, bom_seen = False\<rparr>"

fun serialize :: "bool \<Rightarrow> nat list \<Rightarrow> bool \<times> jsstring" where
  \<comment> \<open>"serialize I/O queue": the first code point is skipped when it is U+FEFF\<close>
  "serialize seen [] = (seen, [])"
| "serialize seen (cp # cps) =
     (if \<not> seen \<and> cp = 0xFEFF then serialize True cps
      else (case serialize True cps of (seen', out) \<Rightarrow> (seen', code_units cp @ out)))"

definition decode_byte :: "text_decoder \<Rightarrow> byte \<Rightarrow> text_decoder \<times> jsstring" where
  "decode_byte t b =
     (case utf8_handler (utf8 t) b of (d', cps) \<Rightarrow>
        (case serialize (bom_seen t) cps of (seen', out) \<Rightarrow>
           (\<lparr>utf8 = d', bom_seen = seen'\<rparr>, out)))"

fun decode_stream :: "text_decoder \<Rightarrow> byte list \<Rightarrow> text_decoder \<times> jsstring" where
  \<comment> \<open>\<^verbatim>\<open>decoder.decode(value, { stream: true })\<close>: the new decoder state and the text\<close>
  "decode_stream t [] = (t, [])"
| "decode_stream t (b # bs) =
     (case decode_byte t b of (t', out) \<Rightarrow>
        (case decode_stream t' bs of (t'', out') \<Rightarrow> (t'', out @ out')))"

subsection \<open>Splitting the buffer into lines\<close>

fun split_nl :: "jsstring \<Rightarrow> jsstring list" where
  \<comment> \<open>\<^verbatim>\<open>buffer.split('\n')\<close>: never empty, the last element is the unterminated tail\<close>
  "split_nl [] = [[]]"
| "split_nl (c # cs) =
     (if c = 0xA then [] # split_nl cs
      else (case split_nl cs of [] \<Rightarrow> [[c]] | l # ls \<Rightarrow> (c # l) # ls))"

definition pop_or_empty :: "jsstring list \<Rightarrow> jsstring list \<times> jsstring" where
  \<comment> \<open>\<^verbatim>\<open>buffer = lines.pop() || ''\<close>: the array without its last element, and that
      element, or the empty string when there is none or it is empty\<close>
  "pop_or_empty parts = (if parts = [] then ([], []) else (butlast parts, last parts))"

definition frame_chunk ::
  "text_decoder \<times> jsstring \<Rightarrow> byte list \<Rightarrow> (text_decoder \<times> jsstring) \<times> jsstring list" where
  \<comment> \<open>the first three statements of the loop body: the decoder and the buffer after the
      chunk, and the complete lines it released\<close>
  "frame_chunk tb v =
     (case decode_stream (fst tb) v of (t', txt) \<Rightarrow>
        (case pop_or_empty (split_nl (snd tb @ txt)) of (lines, buffer') \<Rightarrow>
           ((t', buffer'), lines)))"

section \<open>JSON values and the JavaScript operations applied to them\<close>

text \<open>
  \<^verbatim>\<open>JSON.parse\<close> returns a JSON value or throws a SyntaxError. An object is the list
  of its own properties, each key once. A property read or an optional chain can also yield
  \<^verbatim>\<open>undefined\<close>, which is \<open>None\<close> of \<open>json option\<close>.
\<close>

datatype json =
    JNull
  | JBool bool
  | JNum rat
  | JStr jsstring
  | JArr "json list"
  | JObj "(jsstring \<times> json) list"

datatype js_exn = SyntaxError | TypeError

text \<open>
  The platform functions the transformer calls and the repository does not define:
  \<^verbatim>\<open>JSON.parse\<close> (\<open>None\<close> when it throws), the decimal representation of a number
  (\<^verbatim>\<open>Number.prototype.toString\<close>), and the identifier that the one call of
  \<^verbatim>\<open>generateUUID()\<close> returns.
\<close>

record platform =
  JSON_parse :: "jsstring \<Rightarrow> json option"
  Number_toString :: "rat \<Rightarrow> jsstring"
  generateUUID :: jsstring

fun lookup :: "json \<Rightarrow> jsstring \<Rightarrow> json option" where
  \<comment> \<open>\<^verbatim>\<open>v.k\<close> for a value that is not null and a key \<open>k\<close> that no prototype
      defines (every key read below is one): an own property of an object, undefined
      otherwise\<close>
  "lookup (JObj kvs) k = map_of kvs k"
| "lookup _ k = None"

definition get_prop :: "json \<Rightarrow> jsstring \<Rightarrow> js_exn + json option" where
  \<comment> \<open>\<^verbatim>\<open>v.k\<close>: reading a property of null throws a TypeError\<close>
  "get_prop v k = (if v = JNull then Inl TypeError else Inr (lookup v k))"

definition opt_chain :: "json option \<Rightarrow> jsstring \<Rightarrow> json option" where
  \<comment> \<open>\<^verbatim>\<open>v?.k\<close>: undefined when \<open>v\<close> is null or undefined\<close>
  "opt_chain v k = (case v of None \<Rightarrow> None | Some JNull \<Rightarrow> None | Some x \<Rightarrow> lookup x k)"

fun truthy :: "json option \<Rightarrow> bool" where
  "truthy None = False"
| "truthy (Some JNull) = False"
| "truthy (Some (JBool b)) = b"
| "truthy (Some (JNum n)) = (n \<noteq> 0)"
| "truthy (Some (JStr s)) = (s \<noteq> [])"
| "truthy (Some (JArr xs)) = True"
| "truthy (Some (JObj kvs)) = True"

definition js_or :: "json option \<Rightarrow> json \<Rightarrow> json" where
  \<comment> \<open>\<^verbatim>\<open>v || d\<close> for a default \<open>d\<close> that is a value\<close>
  "js_or v d = (case v of None \<Rightarrow> d | Some x \<Rightarrow> if truthy v then x else d)"

subsection \<open>String coercion\<close>

text \<open>
  \<^verbatim>\<open>currentText += data.content\<close> concatenates the string \<^verbatim>\<open>currentText\<close> with the string
  coercion of the content, as ECMAScript defines it (ToPrimitive, then ToString). A value
  that \<^verbatim>\<open>JSON.parse\<close> returned has no callable property of its own, so the coercion goes
  through the prototypes. A primitive gives its usual text. An array gives the texts of its
  elements joined by commas, a null element giving the empty text. An object gives
  \<^verbatim>\<open>[object Object]\<close> through \<^verbatim>\<open>Object.prototype.toString\<close>, unless it has a property
  \<^verbatim>\<open>toString\<close> of its own: this property hides the inherited method and is not callable,
  \<^verbatim>\<open>valueOf\<close> gives no primitive either, and the coercion throws a TypeError, here
  \<open>None\<close>. The coercion of an array throws when that of an element does.
\<close>

fun ToString :: "(rat \<Rightarrow> jsstring) \<Rightarrow> json \<Rightarrow> jsstring option"
  and join :: "(rat \<Rightarrow> jsstring) \<Rightarrow> json list \<Rightarrow> jsstring option" where
  "ToString nf JNull = Some (lit ''null'')"
| "ToString nf (JBool b) = Some (if b then lit ''true'' else lit ''false'')"
| "ToString nf (JNum n) = Some (nf n)"
| "ToString nf (JStr s) = Some s"
| "ToString nf (JArr xs) = join nf xs"
| "ToString nf (JObj kvs) =
     (if map_of kvs (lit ''toString'') = None then Some (lit ''[object Object]'') else None)"
| "join nf [] = Some []"
| "join nf (x # xs) =
     (case (if x = JNull then Some [] else ToString nf x) of
        None \<Rightarrow> None
      | Some a \<Rightarrow>
          if xs = [] then Some a
          else (case join nf xs of None \<Rightarrow> None | Some b \<Rightarrow> Some (a @ lit '','' @ b)))"

definition string_of :: "platform \<Rightarrow> json option \<Rightarrow> jsstring option" where
  \<comment> \<open>the string coercion of a value that may be \<^verbatim>\<open>undefined\<close>; \<open>None\<close> when it
      throws\<close>
  "string_of P v =
     (case v of None \<Rightarrow> Some (lit ''undefined'') | Some x \<Rightarrow> ToString (Number_toString P) x)"

section \<open>The events the transformer enqueues\<close>

record ui_source =
  title :: json
  url :: json
  content :: "json option"
  relevance_score :: "json option"
  page :: "json option"
  chunk_index :: "json option"

datatype ui_event =
    TextDelta "json option"
      \<comment> \<open>\<^verbatim>\<open>{ type: 'text-delta', textDelta }\<close>\<close>
  | Data "ui_source list" nat
      \<comment> \<open>\<^verbatim>\<open>{ type: 'data', data: { sources, num_sources } }\<close>\<close>
  | Finish jsstring nat nat nat
      \<comment> \<open>\<^verbatim>\<open>{ type: 'finish', finishReason, usage: { promptTokens, completionTokens,
          totalTokens } }\<close>\<close>

datatype log_entry = Warn jsstring js_exn
  \<comment> \<open>\<^verbatim>\<open>console.warn('Failed to parse SSE data:', line, parseError)\<close>\<close>

datatype controller_state = Readable | Closed | Errored jsstring

text \<open>
  The state of one call of \<^verbatim>\<open>start(controller)\<close>: its local variables, the events
  enqueued on the controller so far, the console, the state of the controller and whether
  the reader still holds its lock. The consumer is taken not to cancel, so that
  \<^verbatim>\<open>controller.enqueue\<close> never throws.
\<close>

record stream_state =
  decoder :: text_decoder
  buffer :: jsstring
  messageId :: jsstring
  currentText :: jsstring
  sources :: json
  classification :: "json option"
  enqueued :: "ui_event list"
  console :: "log_entry list"
  controller :: controller_state
  reader_locked :: bool

definition enqueue :: "ui_event \<Rightarrow> stream_state \<Rightarrow> stream_state" where
  "enqueue e s = s\<lparr>enqueued := enqueued s @ [e]\<rparr>"

definition map_source :: "json \<Rightarrow> js_exn + ui_source" where
  \<comment> \<open>the callback of \<^verbatim>\<open>sources.map\<close>; \<^verbatim>\<open>s.metadata\<close> is read first and throws when
      \<open>s\<close> is null\<close>
  "map_source s =
     (case get_prop s (lit ''metadata'') of
        Inl e \<Rightarrow> Inl e
      | Inr md \<Rightarrow>
          Inr \<lparr>title = js_or (opt_chain md (lit ''source'')) (JStr (lit ''Document'')),
               url = js_or (opt_chain md (lit ''source'')) (JStr (lit ''#'')),
               content = lookup s (lit ''content''),
               relevance_score = lookup s (lit ''relevance_score''),
               page = opt_chain md (lit ''page''),
               chunk_index = opt_chain md (lit ''chunk_index'')\<rparr>)"

fun map_sources :: "json list \<Rightarrow> js_exn + ui_source list" where
  "map_sources [] = Inr []"
| "map_sources (x # xs) =
     (case map_source x of
        Inl e \<Rightarrow> Inl e
      | Inr u \<Rightarrow> (case map_sources xs of Inl e \<Rightarrow> Inl e | Inr us \<Rightarrow> Inr (u # us)))"

definition switch_data :: "platform \<Rightarrow> json \<Rightarrow> stream_state \<Rightarrow> stream_state \<times> js_exn option" where
  \<comment> \<open>\<^verbatim>\<open>switch (data.type)\<close> inside the try block: the state when the block is left, and
      the exception when it is left by a throw. The cases compare with \<^verbatim>\<open>===\<close>, so only a
      string matches. In the case of a token the assignment to \<^verbatim>\<open>currentText\<close> comes
      first: when the coercion of the content throws, nothing is assigned and nothing is
      enqueued. \<^verbatim>\<open>sources.map\<close> is a function only when \<open>sources\<close> is an array.\<close>
  "switch_data P data s =
     (case get_prop data (lit ''type'') of
        Inl e \<Rightarrow> (s, Some e)
      | Inr ty \<Rightarrow>
          if ty = Some (JStr (lit ''token'')) then
            (case string_of P (lookup data (lit ''content'')) of
               None \<Rightarrow> (s, Some TypeError)
             | Some text \<Rightarrow>
                 (enqueue (TextDelta (lookup data (lit ''content'')))
                    (s\<lparr>currentText := currentText s @ text\<rparr>),
                  None))
          else if ty = Some (JStr (lit ''classification'')) then
            (s\<lparr>classification := lookup data (lit ''classification'')\<rparr>, None)
          else if ty = Some (JStr (lit ''sources'')) then
            (let srcs = js_or (lookup data (lit ''sources'')) (JArr []);
                 s1 = s\<lparr>sources := srcs\<rparr>
             in case srcs of
                  JArr xs \<Rightarrow>
                    (case map_sources xs of
                       Inl e \<Rightarrow> (s1, Some e)
                     | Inr us \<Rightarrow> (enqueue (Data us (length xs)) s1, None))
                | _ \<Rightarrow> (s1, Some TypeError))
          else if ty = Some (JStr (lit ''done'')) then
            (enqueue (Finish (lit ''stop'') 0 0 0) s, None)
          else (s, None))"

definition try_parse :: "platform \<Rightarrow> jsstring \<Rightarrow> stream_state \<Rightarrow> stream_state \<times> js_exn option" where
  \<comment> \<open>the try block: \<^verbatim>\<open>JSON.parse(line.slice(6))\<close>, then the switch\<close>
  "try_parse P line s =
     (case JSON_parse P (drop 6 line) of
        None \<Rightarrow> (s, Some SyntaxError)
      | Some data \<Rightarrow> switch_data P data s)"

definition process_line :: "platform \<Rightarrow> stream_state \<Rightarrow> jsstring \<Rightarrow> stream_state" where
  \<comment> \<open>the body of \<^verbatim>\<open>for (const line of lines)\<close>\<close>
  "process_line P s line =
     (if js_trim line = [] \<or> startsWith line (lit '':'') then s
      else if startsWith line (lit ''data: '') then
        (case try_parse P line s of
           (s', None) \<Rightarrow> s'
         | (s', Some e) \<Rightarrow> s'\<lparr>console := console s' @ [Warn line e]\<rparr>)
      else s)"

definition process_lines :: "platform \<Rightarrow> stream_state \<Rightarrow> jsstring list \<Rightarrow> stream_state" where
  \<comment> \<open>\<^verbatim>\<open>for (const line of lines)\<close>\<close>
  "process_lines P s lines = foldl (process_line P) s lines"

definition on_chunk :: "platform \<Rightarrow> stream_state \<Rightarrow> byte list \<Rightarrow> stream_state" where
  \<comment> \<open>the loop body for a chunk that a read delivered\<close>
  "on_chunk P s v =
     (case frame_chunk (decoder s, buffer s) v of
        ((t', buffer'), lines) \<Rightarrow>
          process_lines P (s\<lparr>decoder := t', buffer := buffer'\<rparr>) lines)"

text \<open>
  The upstream is the list of the results of \<^verbatim>\<open>reader.read()\<close>, in order: a chunk,
  the end of the stream, or a rejection. When the list runs out the next read never settles,
  and the transformer stays suspended with the controller readable and the reader locked.
\<close>

datatype read_result = Value "byte list" | ReadDone | ReadError jsstring

fun read_loop :: "platform \<Rightarrow> stream_state \<Rightarrow> read_result list \<Rightarrow> stream_state" where
  "read_loop P s [] = s"
| "read_loop P s (Value v # rs) = read_loop P (on_chunk P s v) rs"
| "read_loop P s (ReadDone # rs) = s\<lparr>controller := Closed, reader_locked := False\<rparr>"
| "read_loop P s (ReadError e # rs) = s\<lparr>controller := Errored e, reader_locked := False\<rparr>"

definition start_state :: "platform \<Rightarrow> stream_state" where
  "start_state P =
     \<lparr>decoder = text_decoder_init, buffer = [], messageId = generateUUID P, currentText = [],
      sources = JArr [], classification = Some JNull, enqueued = [], console = [],
      controller = Readable, reader_locked = True\<rparr>"

definition transformAgentStreamToUIStream :: "platform \<Rightarrow> read_result list \<Rightarrow> stream_state" where
  "transformAgentStreamToUIStream P reads = read_loop P (start_state P) reads"

section \<open>What the claims speak about\<close>

text \<open>
  The decoded lines of a sequence of chunks are the lines that the successive loop bodies
  iterate over, in order.
\<close>

fun frame_all :: "text_decoder \<times> jsstring \<Rightarrow> byte list list \<Rightarrow> jsstring list" where
  "frame_all tb [] = []"
| "frame_all tb (v # vs) = (case frame_chunk tb v of (tb', lines) \<Rightarrow> lines @ frame_all tb' vs)"

fun frame_state :: "text_decoder \<times> jsstring \<Rightarrow> byte list list \<Rightarrow> text_decoder \<times> jsstring" where
  \<comment> \<open>the decoder and the buffer after a sequence of chunks\<close>
  "frame_state tb [] = tb"
| "frame_state tb (v # vs) = frame_state (fst (frame_chunk tb v)) vs"

definition decoded_lines :: "byte list list \<Rightarrow> jsstring list" where
  "decoded_lines chunks = frame_all (text_decoder_init, []) chunks"

text \<open>
  The backend events of a sequence of lines are the values that \<^verbatim>\<open>JSON.parse\<close> returns
  for the lines that reach it, in order; the type of an event is its \<^verbatim>\<open>type\<close> property when
  that is a string. The events a line emits are those it enqueues on a fresh stream.
\<close>

definition data_line :: "jsstring \<Rightarrow> bool" where
  "data_line l = (js_trim l \<noteq> [] \<and> \<not> startsWith l (lit '':'') \<and> startsWith l (lit ''data: ''))"

definition backend_events :: "platform \<Rightarrow> jsstring list \<Rightarrow> json list" where
  "backend_events P lines =
     List.map_filter (\<lambda>l. if data_line l then JSON_parse P (drop 6 l) else None) lines"

definition event_type :: "json \<Rightarrow> jsstring option" where
  "event_type d =
     (case get_prop d (lit ''type'') of Inr (Some (JStr t)) \<Rightarrow> Some t | _ \<Rightarrow> None)"

definition is_done :: "json \<Rightarrow> bool" where
  "is_done d = (event_type d = Some (lit ''done''))"

definition is_token :: "json \<Rightarrow> bool" where
  "is_token d = (event_type d = Some (lit ''token''))"

definition is_error :: "json \<Rightarrow> bool" where
  "is_error d = (event_type d = Some (lit ''error''))"

definition token_contents :: "json list \<Rightarrow> json option list" where
  "token_contents ds = map (\<lambda>d. lookup d (lit ''content'')) (filter is_token ds)"

fun is_finish :: "ui_event \<Rightarrow> bool" where
  "is_finish (Finish r p c t) = True"
| "is_finish _ = False"

fun text_deltas :: "ui_event list \<Rightarrow> json option list" where
  "text_deltas [] = []"
| "text_deltas (TextDelta c # es) = c # text_deltas es"
| "text_deltas (_ # es) = text_deltas es"

definition finishes :: "ui_event list \<Rightarrow> nat" where
  "finishes es = length (filter is_finish es)"

definition coercible :: "platform \<Rightarrow> json option \<Rightarrow> bool" where
  \<comment> \<open>the string coercion of the content does not throw\<close>
  "coercible P c = (string_of P c \<noteq> None)"

definition contents_text :: "platform \<Rightarrow> json option list \<Rightarrow> jsstring" where
  \<comment> \<open>the concatenation of contents as strings; a content whose coercion throws adds
      nothing\<close>
  "contents_text P cs =
     concat (map (\<lambda>c. case string_of P c of None \<Rightarrow> [] | Some text \<Rightarrow> text) cs)"

text \<open>
  What the consumer of the stream has read when the stream has ended. The transformer
  enqueues without waiting for the consumer. \<^verbatim>\<open>controller.close()\<close> lets the consumer
  read all that is queued before the stream ends. \<^verbatim>\<open>controller.error(error)\<close> empties the
  queue, so that the consumer keeps the events it had read by then, \<open>n\<close> of them, and
  its next read is rejected with the error.
\<close>

definition consumer_observes :: "nat \<Rightarrow> stream_state \<Rightarrow> ui_event list \<times> controller_state" where
  "consumer_observes n s =
     (case controller s of
        Errored e \<Rightarrow> (take n (enqueued s), Errored e)
      | c \<Rightarrow> (enqueued s, c))"

definition line_events :: "platform \<Rightarrow> jsstring \<Rightarrow> ui_event list" where
  "line_events P l = enqueued (process_line P (start_state P) l)"

subsection \<open>A platform for concrete runs\<close>

text \<open>
  The graph of \<^verbatim>\<open>JSON.parse\<close> on the four payloads that the concrete runs below contain;
  every other payload of those runs is not JSON. The only number in those runs is 1, and
  \<^verbatim>\<open>Number.prototype.toString\<close> is given on it.
\<close>

definition sample_parse :: "jsstring \<Rightarrow> json option" where
  \<open>sample_parse s =
     (if s = lit ''{"type":"token","content":"Hi"}'' then
        Some (JObj [(lit ''type'', JStr (lit ''token'')), (lit ''content'', JStr (lit ''Hi''))])
      else if s = lit ''{"type":"done"}'' then
        Some (JObj [(lit ''type'', JStr (lit ''done''))])
      else if s = lit ''{"type":"error","error":"boom"}'' then
        Some (JObj [(lit ''type'', JStr (lit ''error'')), (lit ''error'', JStr (lit ''boom''))])
      else if s = lit ''{"type":"token","content":{"toString":1}}'' then
        Some (JObj [(lit ''type'', JStr (lit ''token'')),
                    (lit ''content'', JObj [(lit ''toString'', JNum 1)])])
      else None)\<close>

definition sample_platform :: platform where
  "sample_platform =
     \<lparr>JSON_parse = sample_parse,
      Number_toString = (\<lambda>n. lit ''1''),
      generateUUID = lit ''3f0c9a52-7d1e-4b7a-9c55-0a1b2c3d4e5f''\<rparr>"

definition token_frame :: string where
  \<open>token_frame = ''data: {"type":"token","content":"Hi"}''\<close>

definition done_frame :: string where
  \<open>done_frame = ''data: {"type":"done"}''\<close>

definition error_frame :: string where
  \<open>error_frame = ''data: {"type":"error","error":"boom"}''\<close>

definition object_token_frame :: string where
  \<comment> \<open>a token whose content is an object with a property \<^verbatim>\<open>toString\<close> of its own\<close>
  \<open>object_token_frame = ''data: {"type":"token","content":{"toString":1}}''\<close>

definition scenario_A :: "byte list" where
  "scenario_A = bytes_of token_frame @ [0xA, 0xA] @ bytes_of done_frame @ [0xA, 0xA]"

section \<open>The evaluation store: polling of evaluation jobs\<close>

text \<open>
  \<^verbatim>\<open>lib/stores/evaluation-store.ts\<close>. The store holds the jobs, the current results, a loading
  flag, an error message and \<^verbatim>\<open>pollingIntervals\<close>, a \<^verbatim>\<open>Map\<close> from job id to timer, kept
  here as the list of its entries in insertion order. (Its fields \<^verbatim>\<open>datasets\<close> and
  \<^verbatim>\<open>currentDataset\<close> play no part in polling and are left out.) Around the store stands
  the environment it acts on: the interval timers that are active, each with the job id its
  callback closes over and its period, the identifier the next \<^verbatim>\<open>setInterval\<close> returns,
  the remote calls issued so far and the console. A timer identifier is a positive number;
  \<^verbatim>\<open>if (intervalId)\<close> tests that it is not zero.
\<close>

datatype job_status = Queued | Running | Completed | Failed

datatype retrieval_method = Basic | MultiQuery | Hybrid

record evaluation_job =
  job_id :: jsstring
  dataset_id :: jsstring
  retrieval_method :: retrieval_method
  k_values :: "rat list"
  status :: job_status
  progress :: "rat option"
  created_at :: jsstring
  started_at :: "jsstring option"
  completed_at :: "jsstring option"
  job_error :: "jsstring option"

datatype request = GetJobStatus jsstring | GetJobResults jsstring

text \<open>
  A promise of the client settles with a value or with an \<^verbatim>\<open>Error\<close>, of which the
  message is kept (\<^verbatim>\<open>request\<close> in \<^verbatim>\<open>lib/api/rag-tester.ts\<close> throws nothing else).
\<close>

datatype 'a settled = Fulfilled 'a | Rejected jsstring

record 'r world =
  jobs :: "evaluation_job list"
  currentResults :: "'r option"
  isLoading :: bool
  error :: "jsstring option"
  pollingIntervals :: "(jsstring \<times> nat) list"
  timers :: "(nat \<times> jsstring \<times> nat) list"
  next_timer :: nat
  requests :: "request list"
  console_errors :: "jsstring list"

definition init_world :: "'r world" where
  "init_world =
     \<lparr>jobs = [], currentResults = None, isLoading = False, error = None,
      pollingIntervals = [], timers = [], next_timer = 1, requests = [], console_errors = []\<rparr>"

definition setInterval :: "jsstring \<Rightarrow> nat \<Rightarrow> 'r world \<Rightarrow> nat \<times> 'r world" where
  \<comment> \<open>\<^verbatim>\<open>setInterval(callback, intervalMs)\<close> for the polling callback of job \<open>j\<close>\<close>
  "setInterval j ms w =
     (next_timer w,
      w\<lparr>timers := timers w @ [(next_timer w, j, ms)], next_timer := Suc (next_timer w)\<rparr>)"

definition clearInterval :: "nat \<Rightarrow> 'r world \<Rightarrow> 'r world" where
  "clearInterval t w = w\<lparr>timers := AList.delete t (timers w)\<rparr>"

definition stopPolling :: "jsstring \<Rightarrow> 'r world \<Rightarrow> 'r world" where
  "stopPolling jobId w =
     (case map_of (pollingIntervals w) jobId of
        None \<Rightarrow> w
      | Some intervalId \<Rightarrow>
          if intervalId \<noteq> 0 then
            (clearInterval intervalId w)
              \<lparr>pollingIntervals := AList.delete jobId (pollingIntervals w)\<rparr>
          else w)"

definition startPolling :: "jsstring \<Rightarrow> nat option \<Rightarrow> 'r world \<Rightarrow> 'r world" where
  \<comment> \<open>\<^verbatim>\<open>startPolling(jobId, intervalMs = 2000)\<close>; \<open>None\<close> is the omitted argument\<close>
  "startPolling jobId intervalMs w =
     (if map_of (pollingIntervals w) jobId \<noteq> None then w
      else
        (case setInterval jobId (case intervalMs of None \<Rightarrow> 2000 | Some ms \<Rightarrow> ms) w of
           (intervalId, w') \<Rightarrow>
             w'\<lparr>pollingIntervals := AList.update jobId intervalId (pollingIntervals w')\<rparr>))"

definition stopAllPolling :: "'r world \<Rightarrow> 'r world" where
  "stopAllPolling w =
     (foldl (\<lambda>w' entry. clearInterval (snd entry) w') w (pollingIntervals w))
       \<lparr>pollingIntervals := []\<rparr>"

definition reset :: "'r world \<Rightarrow> 'r world" where
  "reset w =
     (stopAllPolling w)
       \<lparr>jobs := [], currentResults := None, isLoading := False, error := None,
        pollingIntervals := []\<rparr>"

text \<open>
  The callback of a timer and \<^verbatim>\<open>fetchResults\<close> are asynchronous: each runs up to its
  \<^verbatim>\<open>await\<close>, and its continuation runs when the promise settles, on the state of that
  moment. \<open>timer_fires\<close> is a tick of timer \<open>t\<close>; a timer that has been cleared does not
  tick. \<open>status_settled\<close> is the continuation of the callback of job \<open>jobId\<close>.
\<close>

definition timer_fires :: "nat \<Rightarrow> 'r world \<Rightarrow> 'r world" where
  "timer_fires t w =
     (case map_of (timers w) t of
        None \<Rightarrow> w
      | Some (jobId, ms) \<Rightarrow> w\<lparr>requests := requests w @ [GetJobStatus jobId]\<rparr>)"

definition fetchResults_called :: "jsstring \<Rightarrow> 'r world \<Rightarrow> 'r world" where
  "fetchResults_called jobId w =
     w\<lparr>isLoading := True, error := None, requests := requests w @ [GetJobResults jobId]\<rparr>"

definition fetchResults_settled :: "'r settled \<Rightarrow> 'r world \<Rightarrow> 'r world" where
  "fetchResults_settled r w =
     (case r of
        Fulfilled results \<Rightarrow> w\<lparr>currentResults := Some results, isLoading := False\<rparr>
      | Rejected msg \<Rightarrow> w\<lparr>error := Some msg, isLoading := False\<rparr>)"

definition status_settled :: "jsstring \<Rightarrow> evaluation_job settled \<Rightarrow> 'r world \<Rightarrow> 'r world" where
  "status_settled jobId r w =
     (case r of
        Rejected msg \<Rightarrow> stopPolling jobId (w\<lparr>console_errors := console_errors w @ [msg]\<rparr>)
      | Fulfilled job \<Rightarrow>
          (let w1 = w\<lparr>jobs := map (\<lambda>j. if job_id j = jobId then job else j) (jobs w)\<rparr>
           in if status job = Completed \<or> status job = Failed then
                (let w2 = stopPolling jobId w1
                 in if status job = Completed then fetchResults_called jobId w2 else w2)
              else w1))"

datatype 'r action =
    StartPolling jsstring "nat option"
  | StopPolling jsstring
  | StopAllPolling
  | Reset
  | TimerFires nat
  | StatusSettled jsstring "evaluation_job settled"
  | ResultsSettled "'r settled"

fun step :: "'r world \<Rightarrow> 'r action \<Rightarrow> 'r world" where
  "step w (StartPolling j ms) = startPolling j ms w"
| "step w (StopPolling j) = stopPolling j w"
| "step w StopAllPolling = stopAllPolling w"
| "step w Reset = reset w"
| "step w (TimerFires t) = timer_fires t w"
| "step w (StatusSettled j r) = status_settled j r w"
| "step w (ResultsSettled r) = fetchResults_settled r w"

definition run_actions :: "'r action list \<Rightarrow> 'r world" where
  \<comment> \<open>the state after a history of calls, ticks and settled promises, from the initial store\<close>
  "run_actions acts = foldl step init_world acts"

definition timers_of :: "jsstring \<Rightarrow> 'r world \<Rightarrow> nat list" where
  \<comment> \<open>the active timers whose callback polls job \<open>j\<close>\<close>
  "timers_of j w = map fst (filter (\<lambda>e. fst (snd e) = j) (timers w))"

definition other_timers :: "jsstring \<Rightarrow> 'r world \<Rightarrow> (nat \<times> jsstring \<times> nat) list" where
  "other_timers j w = filter (\<lambda>e. fst (snd e) \<noteq> j) (timers w)"

definition handles_ok :: "'r world \<Rightarrow> bool" where
  \<comment> \<open>the handles of \<^verbatim>\<open>pollingIntervals\<close> and the active timers correspond: the next
      identifier is positive; every active timer has an identifier of its own, positive and
      already issued, and is the handle held for the job it polls; and every handle held for
      a job is an active timer that polls this job\<close>
  "handles_ok w =
     (0 < next_timer w \<and> distinct (map fst (timers w)) \<and>
      list_all (\<lambda>e. map_of (pollingIntervals w) (fst (snd e)) = Some (fst e) \<and>
                     0 < fst e \<and> fst e < next_timer w) (timers w) \<and>
      list_all (\<lambda>e. map_option fst (map_of (timers w) (snd e)) = Some (fst e))
        (pollingIntervals w))"

definition sample_job :: "job_status \<Rightarrow> evaluation_job" where
  "sample_job st =
     \<lparr>job_id = lit ''job-1'', dataset_id = lit ''ds-1'', retrieval_method = Hybrid,
      k_values = [1, 3, 5], status = st, progress = None, created_at = lit ''2025-01-01'',
      started_at = None, completed_at = None, job_error = None\<rparr>"

definition scenario_B :: "unit action list" where
  \<comment> \<open>a job polled at the default period whose status is fetched as running three times;
      the fourth tick has fired and its fetch is in flight\<close>
  "scenario_B =
     [StartPolling (lit ''job-1'') None,
      TimerFires 1, StatusSettled (lit ''job-1'') (Fulfilled (sample_job Running)),
      TimerFires 1, StatusSettled (lit ''job-1'') (Fulfilled (sample_job Running)),
      TimerFires 1, StatusSettled (lit ''job-1'') (Fulfilled (sample_job Running)),
      TimerFires 1]"

definition two_jobs :: "unit world" where
  \<comment> \<open>two jobs polled at once, the first of them listed in the store as running\<close>
  "two_jobs =
     (run_actions [StartPolling (lit ''job-1'') None, StartPolling (lit ''job-2'') (Some 500)])
       \<lparr>jobs := [sample_job Running]\<rparr>"


section \<open>Lines are independent of the chunking\<close>

lemma split_nl_nonempty: "split_nl s \<noteq> []"
  by (induction s) (auto split: list.splits)

lemma split_nl_append:
  "split_nl (a @ b) = butlast (split_nl a) @ split_nl (last (split_nl a) @ b)"
proof (induction a)
  case Nil
  show ?case by simp
next
  case (Cons c a)
  obtain l ls where sa: "split_nl a = l # ls"
    using split_nl_nonempty [of a] by (cases "split_nl a") auto
  show ?case
  proof (cases "c = 0xA")
    case True
    then show ?thesis using Cons sa by simp
  next
    case False
    show ?thesis
    proof (cases ls)
      case Nil
      then show ?thesis using Cons sa False by simp
    next
      case (Cons l' ls')
      then show ?thesis using Cons.IH sa False by simp
    qed
  qed
qed

lemma split_nl_no_newline: "l \<in> set (split_nl s) \<Longrightarrow> 0xA \<notin> set l"
  by (induction s arbitrary: l) (auto split: list.splits if_splits)

lemma split_nl_plain: "0xA \<notin> set s \<Longrightarrow> split_nl s = [s]"
  by (induction s) auto

lemma decode_stream_append:
  "decode_stream t (a @ b) =
     (case decode_stream t a of (t1, x) \<Rightarrow>
        (case decode_stream t1 b of (t2, y) \<Rightarrow> (t2, x @ y)))"
  by (induction a arbitrary: t) (auto split: prod.splits)

lemma frame_chunk_append:
  "frame_chunk tb (a @ b) =
     (case frame_chunk tb a of (tb1, l1) \<Rightarrow>
        (case frame_chunk tb1 b of (tb2, l2) \<Rightarrow> (tb2, l1 @ l2)))"
proof -
  obtain t1 x where d1: "decode_stream (fst tb) a = (t1, x)" by (cases "decode_stream (fst tb) a")
  obtain t2 y where d2: "decode_stream t1 b = (t2, y)" by (cases "decode_stream t1 b")
  have ne1: "split_nl (snd tb @ x) \<noteq> []" and ne2: "split_nl (last (split_nl (snd tb @ x)) @ y) \<noteq> []"
    by (rule split_nl_nonempty)+
  have sp: "split_nl (snd tb @ x @ y) =
      butlast (split_nl (snd tb @ x)) @ split_nl (last (split_nl (snd tb @ x)) @ y)"
    using split_nl_append [of "snd tb @ x" y] by simp
  show ?thesis
    using ne1 ne2
    by (simp add: frame_chunk_def decode_stream_append d1 d2 pop_or_empty_def sp
        split_nl_nonempty butlast_append)
qed

lemma frame_chunk_empty:
  "0xA \<notin> set b \<Longrightarrow> frame_chunk (t, b) [] = ((t, b), [])"
  by (simp add: frame_chunk_def pop_or_empty_def split_nl_plain)

lemma frame_chunk_buffer:
  "frame_chunk tb v = ((t', b'), ls) \<Longrightarrow> 0xA \<notin> set b'"
  using split_nl_no_newline [of b' "snd tb @ snd (decode_stream (fst tb) v)"] split_nl_nonempty [of "snd tb @ snd (decode_stream (fst tb) v)"]
  by (auto simp: frame_chunk_def pop_or_empty_def split: prod.splits)


lemma frame_concat:
  "0xA \<notin> set (snd tb) \<Longrightarrow> frame_chunk tb (concat cs) = (frame_state tb cs, frame_all tb cs)"
proof (induction cs arbitrary: tb)
  case Nil
  then show ?case using frame_chunk_empty [of "snd tb" "fst tb"] by simp
next
  case (Cons c cs)
  obtain t1 b1 l1 where f1: "frame_chunk tb c = ((t1, b1), l1)"
    by (cases "frame_chunk tb c") auto
  have "0xA \<notin> set b1" using frame_chunk_buffer [OF f1] .
  then have "frame_chunk (t1, b1) (concat cs) = (frame_state (t1, b1) cs, frame_all (t1, b1) cs)"
    using Cons.IH [of "(t1, b1)"] by simp
  then show ?case by (simp add: frame_chunk_append f1)
qed

section \<open>The loop over lines and the loop over chunks\<close>

lemma switch_data_frame:
  "switch_data P d (s\<lparr>decoder := t, buffer := b\<rparr>) =
     (case switch_data P d s of (s', e) \<Rightarrow> (s'\<lparr>decoder := t, buffer := b\<rparr>, e))"
  by (simp add: switch_data_def enqueue_def Let_def split: sum.splits json.splits option.splits)

lemma process_line_frame:
  "process_line P (s\<lparr>decoder := t, buffer := b\<rparr>) l = (process_line P s l)\<lparr>decoder := t, buffer := b\<rparr>"
  by (simp add: process_line_def try_parse_def switch_data_frame split: option.splits prod.splits)

lemma process_lines_frame:
  "process_lines P (s\<lparr>decoder := t, buffer := b\<rparr>) ls = (process_lines P s ls)\<lparr>decoder := t, buffer := b\<rparr>"
  unfolding process_lines_def
  by (induction ls arbitrary: s) (simp_all add: process_line_frame)

lemma process_lines_append:
  "process_lines P s (xs @ ys) = process_lines P (process_lines P s xs) ys"
  by (simp add: process_lines_def)

lemma on_chunk_alt:
  "on_chunk P s v =
     (case frame_chunk (decoder s, buffer s) v of
        ((t', b'), ls) \<Rightarrow> (process_lines P s ls)\<lparr>decoder := t', buffer := b'\<rparr>)"
  by (simp add: on_chunk_def process_lines_frame split: prod.splits)

lemma switch_data_keeps:
  "decoder (fst (switch_data P d s)) = decoder s \<and> buffer (fst (switch_data P d s)) = buffer s
   \<and> controller (fst (switch_data P d s)) = controller s
   \<and> reader_locked (fst (switch_data P d s)) = reader_locked s
   \<and> messageId (fst (switch_data P d s)) = messageId s
   \<and> console (fst (switch_data P d s)) = console s"
  by (simp add: switch_data_def enqueue_def Let_def split: sum.splits json.splits option.splits)

lemma switch_data_keepsD:
  "switch_data P d s = (s', e) \<Longrightarrow>
     decoder s' = decoder s \<and> buffer s' = buffer s \<and> controller s' = controller s
     \<and> reader_locked s' = reader_locked s \<and> messageId s' = messageId s \<and> console s' = console s"
  using switch_data_keeps [of P d s] by simp

lemma process_line_keeps:
  "decoder (process_line P s l) = decoder s \<and> buffer (process_line P s l) = buffer s
   \<and> controller (process_line P s l) = controller s
   \<and> reader_locked (process_line P s l) = reader_locked s
   \<and> messageId (process_line P s l) = messageId s"
  by (auto simp: process_line_def try_parse_def split: option.splits prod.splits
      dest!: switch_data_keepsD)

lemma process_lines_keeps:
  "decoder (process_lines P s ls) = decoder s \<and> buffer (process_lines P s ls) = buffer s
   \<and> controller (process_lines P s ls) = controller s
   \<and> reader_locked (process_lines P s ls) = reader_locked s
   \<and> messageId (process_lines P s ls) = messageId s"
  unfolding process_lines_def
  by (induction ls arbitrary: s) (simp_all add: process_line_keeps)

lemma chunks_fold:
  "foldl (on_chunk P) s cs =
     (process_lines P s (frame_all (decoder s, buffer s) cs))
       \<lparr>decoder := fst (frame_state (decoder s, buffer s) cs),
        buffer := snd (frame_state (decoder s, buffer s) cs)\<rparr>"
proof (induction cs arbitrary: s)
  case Nil
  show ?case by (simp add: process_lines_def)
next
  case (Cons c cs)
  obtain t1 b1 l1 where f1: "frame_chunk (decoder s, buffer s) c = ((t1, b1), l1)"
    by (cases "frame_chunk (decoder s, buffer s) c") auto
  have oc: "on_chunk P s c = (process_lines P s l1)\<lparr>decoder := t1, buffer := b1\<rparr>"
    by (simp add: on_chunk_alt f1)
  show ?case
    by (simp add: Cons.IH oc f1 process_lines_frame process_lines_append)
qed

lemma chunks_concat:
  assumes "0xA \<notin> set (buffer s)"
  shows "foldl (on_chunk P) s cs = on_chunk P s (concat cs)"
proof -
  have "frame_chunk (decoder s, buffer s) (concat cs) =
      (frame_state (decoder s, buffer s) cs, frame_all (decoder s, buffer s) cs)"
    using frame_concat [of "(decoder s, buffer s)" cs] assms by simp
  then show ?thesis
    by (simp add: chunks_fold on_chunk_alt split: prod.splits)
qed

lemma read_loop_values:
  "read_loop P s (map Value cs @ rest) = read_loop P (foldl (on_chunk P) s cs) rest"
  by (induction cs arbitrary: s) simp_all

section \<open>What a payload and a line enqueue\<close>

lemma lit_distinct [simp]:
  "lit ''token'' \<noteq> lit ''done''" "lit ''token'' \<noteq> lit ''error''"
  "lit ''token'' \<noteq> lit ''classification''" "lit ''token'' \<noteq> lit ''sources''"
  "lit ''classification'' \<noteq> lit ''done''" "lit ''classification'' \<noteq> lit ''error''"
  "lit ''classification'' \<noteq> lit ''sources''" "lit ''classification'' \<noteq> lit ''token''"
  "lit ''sources'' \<noteq> lit ''done''" "lit ''sources'' \<noteq> lit ''error''"
  "lit ''sources'' \<noteq> lit ''token''" "lit ''sources'' \<noteq> lit ''classification''"
  "lit ''done'' \<noteq> lit ''error''" "lit ''done'' \<noteq> lit ''token''"
  "lit ''done'' \<noteq> lit ''classification''" "lit ''done'' \<noteq> lit ''sources''"
  "lit ''error'' \<noteq> lit ''token''" "lit ''error'' \<noteq> lit ''classification''"
  "lit ''error'' \<noteq> lit ''sources''" "lit ''error'' \<noteq> lit ''done''"
  by (simp_all add: lit_def)

lemma finishes_append [simp]: "finishes (xs @ ys) = finishes xs + finishes ys"
  by (simp add: finishes_def)

lemma text_deltas_append [simp]: "text_deltas (xs @ ys) = text_deltas xs @ text_deltas ys"
  by (induction xs rule: text_deltas.induct) simp_all

lemma switch_data_enqueued:
  "enqueued (fst (switch_data P d s)) = enqueued s @ enqueued (fst (switch_data P d (start_state P)))"
  by (simp add: switch_data_def enqueue_def Let_def start_state_def
      split: sum.splits json.splits option.splits)

lemma switch_data_finishes:
  "finishes (enqueued (fst (switch_data P d (start_state P)))) = (if is_done d then 1 else 0)"
  by (simp add: switch_data_def enqueue_def Let_def start_state_def is_done_def event_type_def
      finishes_def split: sum.splits json.splits option.splits)

lemma switch_data_text_deltas:
  "text_deltas (enqueued (fst (switch_data P d (start_state P)))) =
     (if is_token d \<and> coercible P (lookup d (lit ''content''))
      then [lookup d (lit ''content'')] else [])"
  by (simp add: switch_data_def enqueue_def Let_def start_state_def is_token_def event_type_def
      coercible_def split: sum.splits json.splits option.splits)


lemma contents_text_append [simp]:
  "contents_text P (xs @ ys) = contents_text P xs @ contents_text P ys"
  by (simp add: contents_text_def)



lemma switch_data_error:
  "is_error d \<Longrightarrow> switch_data P d s = (s, None)"
  by (auto simp: switch_data_def is_error_def event_type_def split: sum.splits json.splits option.splits)

lemma startsWith_data:
  assumes "startsWith l (lit ''data: '')"
  shows "js_trim l \<noteq> []" and "\<not> startsWith l (lit '':'')"
proof -
  have "take (length (lit ''data: '')) l = lit ''data: ''" using assms by (simp add: startsWith_def)
  then have "l = lit ''data: '' @ drop (length (lit ''data: '')) l" by (metis append_take_drop_id)
  then obtain r where l: "l = 0x64 # r" by (simp add: lit_def)
  have ns: "\<not> js_space 0x64" by (simp add: js_space_def)
  have "dropWhile js_space (rev (dropWhile js_space l)) \<noteq> []"
    using ns l by (simp add: dropWhile_append3)
  then show "js_trim l \<noteq> []" by (simp add: js_trim_def)
  show "\<not> startsWith l (lit '':'')" using l by (simp add: startsWith_def lit_def)
qed

lemma data_line_iff: "data_line l = startsWith l (lit ''data: '')"
  using startsWith_data [of l] by (auto simp: data_line_def)

lemma process_line_other: "\<not> startsWith l (lit ''data: '') \<Longrightarrow> process_line P s l = s"
  by (simp add: process_line_def)

lemma process_line_data:
  "startsWith l (lit ''data: '') \<Longrightarrow>
   process_line P s l =
     (case try_parse P l s of
        (s', None) \<Rightarrow> s'
      | (s', Some e) \<Rightarrow> s'\<lparr>console := console s' @ [Warn l e]\<rparr>)"
  using startsWith_data [of l] by (simp add: process_line_def)

lemma process_line_enqueued:
  "enqueued (process_line P s l) = enqueued s @ line_events P l"
proof (cases "startsWith l (lit ''data: '')")
  case False
  then show ?thesis by (simp add: process_line_other line_events_def start_state_def)
next
  case True
  show ?thesis
  proof (cases "JSON_parse P (drop 6 l)")
    case None
    then show ?thesis using True
      by (simp add: process_line_data line_events_def try_parse_def start_state_def)
  next
    case (Some d)
    have a: "enqueued (process_line P s l) = enqueued (fst (switch_data P d s))" for s
      using True Some
      by (simp add: process_line_data try_parse_def split: prod.splits option.splits)
    show ?thesis
      using switch_data_enqueued [of P d s] by (simp add: a line_events_def)
  qed
qed

lemma line_events_finishes:
  "finishes (line_events P l) =
     (if data_line l then (case JSON_parse P (drop 6 l) of None \<Rightarrow> 0 | Some d \<Rightarrow> if is_done d then 1 else 0) else 0)"
proof (cases "startsWith l (lit ''data: '')")
  case False
  then show ?thesis
    by (simp add: data_line_iff process_line_other line_events_def start_state_def finishes_def)
next
  case True
  show ?thesis
  proof (cases "JSON_parse P (drop 6 l)")
    case None
    then show ?thesis using True
      by (simp add: data_line_iff process_line_data line_events_def try_parse_def start_state_def finishes_def)
  next
    case (Some d)
    have a: "line_events P l = enqueued (fst (switch_data P d (start_state P)))"
      using True Some
      by (simp add: line_events_def process_line_data try_parse_def split: prod.splits option.splits)
    show ?thesis using True Some by (simp add: a switch_data_finishes data_line_iff)
  qed
qed

lemma line_events_text_deltas:
  "text_deltas (line_events P l) =
     (if data_line l then
        (case JSON_parse P (drop 6 l) of None \<Rightarrow> []
         | Some d \<Rightarrow>
             if is_token d \<and> coercible P (lookup d (lit ''content''))
             then [lookup d (lit ''content'')] else [])
      else [])"
proof (cases "startsWith l (lit ''data: '')")
  case False
  then show ?thesis
    by (simp add: data_line_iff process_line_other line_events_def start_state_def)
next
  case True
  show ?thesis
  proof (cases "JSON_parse P (drop 6 l)")
    case None
    then show ?thesis using True
      by (simp add: data_line_iff process_line_data line_events_def try_parse_def start_state_def)
  next
    case (Some d)
    have a: "line_events P l = enqueued (fst (switch_data P d (start_state P)))"
      using True Some
      by (simp add: line_events_def process_line_data try_parse_def split: prod.splits option.splits)
    show ?thesis using True Some by (simp add: a switch_data_text_deltas data_line_iff)
  qed
qed


lemma process_lines_enqueued:
  "enqueued (process_lines P s ls) = enqueued s @ concat (map (line_events P) ls)"
  unfolding process_lines_def
  by (induction ls arbitrary: s) (simp_all add: process_line_enqueued)

lemma backend_events_Cons:
  "backend_events P (l # ls) =
     (if data_line l then (case JSON_parse P (drop 6 l) of None \<Rightarrow> [] | Some d \<Rightarrow> [d]) else [])
       @ backend_events P ls"
  by (simp add: backend_events_def List.map_filter_simps split: option.splits)

lemma backend_events_Nil: "backend_events P [] = []"
  by (simp add: backend_events_def List.map_filter_simps)

lemma backend_events_append:
  "backend_events P (xs @ ys) = backend_events P xs @ backend_events P ys"
  by (induction xs) (simp_all add: backend_events_Cons backend_events_Nil)

lemma lines_finishes:
  "finishes (concat (map (line_events P) ls)) = length (filter is_done (backend_events P ls))"
proof (induction ls)
  case Nil
  show ?case by (simp add: backend_events_Nil finishes_def)
next
  case (Cons a ls)
  show ?case
    using Cons.IH
    by (cases "data_line a"; cases "JSON_parse P (drop 6 a)")
       (simp_all add: backend_events_Cons line_events_finishes)
qed

lemma lines_text_deltas:
  "text_deltas (concat (map (line_events P) ls)) =
     filter (coercible P) (token_contents (backend_events P ls))"
proof (induction ls)
  case Nil
  show ?case by (simp add: backend_events_Nil token_contents_def)
next
  case (Cons a ls)
  show ?case
    using Cons.IH
    by (cases "data_line a"; cases "JSON_parse P (drop 6 a)")
       (simp_all add: backend_events_Cons line_events_text_deltas token_contents_def)
qed


lemmas eval_defs =
  transformAgentStreamToUIStream_def start_state_def on_chunk_def frame_chunk_def
  process_lines_def process_line_def try_parse_def switch_data_def get_prop_def enqueue_def
  decode_byte_def utf8_handler_def utf8_lead_def utf8_init_def text_decoder_init_def
  code_units_def pop_or_empty_def js_trim_def js_space_def startsWith_def lit_def bytes_of_def
  sample_platform_def sample_parse_def token_frame_def done_frame_def error_frame_def
  object_token_frame_def scenario_A_def decoded_lines_def string_of_def

lemma transform_chunks:
  "transformAgentStreamToUIStream P (map Value cs @ rest) =
     read_loop P (on_chunk P (start_state P) (concat cs)) rest"
  by (simp add: transformAgentStreamToUIStream_def read_loop_values chunks_concat start_state_def)

lemma transform_enqueued:
  "enqueued (foldl (on_chunk P) (start_state P) cs) = concat (map (line_events P) (decoded_lines cs))"
  by (simp add: chunks_fold process_lines_enqueued decoded_lines_def start_state_def)

lemma sample_events:
  "backend_events sample_platform [lit done_frame, lit done_frame, lit token_frame] =
     [JObj [(lit ''type'', JStr (lit ''done''))], JObj [(lit ''type'', JStr (lit ''done''))],
      JObj [(lit ''type'', JStr (lit ''token'')), (lit ''content'', JStr (lit ''Hi''))]]"
  by (simp add: backend_events_def List.map_filter_simps data_line_def eval_defs)

lemma transform_end:
  "transformAgentStreamToUIStream P (map Value cs @ ReadDone # rest) =
     (foldl (on_chunk P) (start_state P) cs)\<lparr>controller := Closed, reader_locked := False\<rparr>"
  "transformAgentStreamToUIStream P (map Value cs @ ReadError e # rest) =
     (foldl (on_chunk P) (start_state P) cs)\<lparr>controller := Errored e, reader_locked := False\<rparr>"
  by (simp_all add: transformAgentStreamToUIStream_def read_loop_values)


section \<open>Handles and timers of the poller\<close>

lemma handles_okD:
  assumes "handles_ok w" and "(t, j, ms) \<in> set (timers w)"
  shows "map_of (pollingIntervals w) j = Some t" and "0 < t" and "t < next_timer w"
  using assms by (auto simp: handles_ok_def list_all_iff)

lemma handles_ok_entry:
  assumes "handles_ok w" and "(j, t) \<in> set (pollingIntervals w)"
  shows "map_option fst (map_of (timers w) t) = Some j"
proof -
  have "list_all (\<lambda>e. map_option fst (map_of (timers w) (snd e)) = Some (fst e))
      (pollingIntervals w)"
    using assms(1) unfolding handles_ok_def by blast
  then have "\<forall>e\<in>set (pollingIntervals w). map_option fst (map_of (timers w) (snd e)) = Some (fst e)"
    unfolding list_all_iff .
  then show ?thesis using assms(2) by fastforce
qed

lemma handles_ok_handle:
  assumes "handles_ok w" and "map_of (pollingIntervals w) j = Some t"
  shows "\<exists>ms. map_of (timers w) t = Some (j, ms)" and "0 < t"
proof -
  have "(j, t) \<in> set (pollingIntervals w)" using assms(2) by (rule map_of_SomeD)
  then have "map_option fst (map_of (timers w) t) = Some j"
    using handles_ok_entry [OF assms(1)] by blast
  then show e: "\<exists>ms. map_of (timers w) t = Some (j, ms)" by auto
  then obtain ms where "(t, j, ms) \<in> set (timers w)" by (auto dest: map_of_SomeD)
  then show "0 < t" using handles_okD(2) [OF assms(1)] by blast
qed

lemma handles_okI:
  assumes "0 < next_timer w" and "distinct (map fst (timers w))"
    and "\<And>t j ms. (t, j, ms) \<in> set (timers w) \<Longrightarrow>
           map_of (pollingIntervals w) j = Some t \<and> 0 < t \<and> t < next_timer w"
    and "\<And>j t. (j, t) \<in> set (pollingIntervals w) \<Longrightarrow>
           map_option fst (map_of (timers w) t) = Some j"
  shows "handles_ok w"
proof -
  have a: "list_all (\<lambda>e. map_of (pollingIntervals w) (fst (snd e)) = Some (fst e) \<and>
                     0 < fst e \<and> fst e < next_timer w) (timers w)"
    unfolding list_all_iff using assms(3) by (metis prod.collapse)
  have b: "list_all (\<lambda>e. map_option fst (map_of (timers w) (snd e)) = Some (fst e))
      (pollingIntervals w)"
    unfolding list_all_iff using assms(4) by (metis prod.collapse)
  show ?thesis unfolding handles_ok_def using assms(1,2) a b by blast
qed

lemma handles_ok_distinct: "handles_ok w \<Longrightarrow> distinct (map fst (timers w))"
  by (simp add: handles_ok_def)

lemma handles_ok_next: "handles_ok w \<Longrightarrow> 0 < next_timer w"
  by (simp add: handles_ok_def)

lemma handles_ok_cong:
  "timers w' = timers w \<Longrightarrow> pollingIntervals w' = pollingIntervals w \<Longrightarrow>
   next_timer w' = next_timer w \<Longrightarrow> handles_ok w' = handles_ok w"
  by (simp add: handles_ok_def)

lemma set_delete: "set (AList.delete k xs) = {e \<in> set xs. fst e \<noteq> k}"
  by (auto simp: AList.delete_eq)

lemma set_update_subset: "set (AList.update k v al) \<subseteq> insert (k, v) (set al)"
  by (induction al) auto

lemma handles_ok_init: "handles_ok init_world"
  by (simp add: handles_ok_def init_world_def)

lemma startPolling_present:
  "map_of (pollingIntervals w) j \<noteq> None \<Longrightarrow> startPolling j ms w = w"
  by (simp add: startPolling_def)

lemma startPolling_absent:
  "map_of (pollingIntervals w) j = None \<Longrightarrow>
   startPolling j ms w =
     w\<lparr>timers := timers w @ [(next_timer w, j, case ms of None \<Rightarrow> 2000 | Some m \<Rightarrow> m)],
       next_timer := Suc (next_timer w),
       pollingIntervals := AList.update j (next_timer w) (pollingIntervals w)\<rparr>"
  by (simp add: startPolling_def setInterval_def)

lemma handles_ok_startPolling:
  assumes "handles_ok w"
  shows "handles_ok (startPolling j ms w)"
proof (cases "map_of (pollingIntervals w) j")
  case (Some t)
  then show ?thesis using assms by (simp add: startPolling_present)
next
  case None
  note sp = startPolling_absent [OF None]
  have fresh: "next_timer w \<notin> fst ` set (timers w)"
    using handles_okD(3) [OF assms] by fastforce
  then have fresh': "map_of (timers w) (next_timer w) = None"
    by (simp add: map_of_eq_None_iff)
  have other: "j' \<noteq> j" if "(t, j', ms') \<in> set (timers w)" for t j' ms'
    using handles_okD(1) [OF assms that] None by auto
  show ?thesis
  proof (rule handles_okI)
    show "0 < next_timer (startPolling j ms w)"
      by (simp add: sp)
    show "distinct (map fst (timers (startPolling j ms w)))"
      using handles_ok_distinct [OF assms] fresh by (simp add: sp)
  next
    fix t j' ms'
    assume "(t, j', ms') \<in> set (timers (startPolling j ms w))"
    then consider "(t, j', ms') \<in> set (timers w)" | "t = next_timer w" "j' = j"
      by (auto simp: sp)
    then show "map_of (pollingIntervals (startPolling j ms w)) j' = Some t \<and> 0 < t
        \<and> t < next_timer (startPolling j ms w)"
    proof cases
      case 1
      then show ?thesis
        using handles_okD [OF assms 1] other [OF 1]
        by (simp add: sp update_conv')
    next
      case 2
      then show ?thesis
        using handles_ok_next [OF assms]
        by (simp add: sp update_conv')
    qed
  next
    fix j' t
    assume "(j', t) \<in> set (pollingIntervals (startPolling j ms w))"
    then consider "(j', t) \<in> set (pollingIntervals w)" | "j' = j" "t = next_timer w"
      using set_update_subset [of j "next_timer w" "pollingIntervals w"] by (auto simp: sp)
    then show "map_option fst (map_of (timers (startPolling j ms w)) t) = Some j'"
    proof cases
      case 1
      have "map_option fst (map_of (timers w) t) = Some j'"
        using handles_ok_entry [OF assms 1] .
      then show ?thesis by (auto simp: sp map_add_def split: option.splits)
    next
      case 2
      then show ?thesis using fresh' by (simp add: sp map_add_def)
    qed
  qed
qed

lemma stopPolling_absent:
  "map_of (pollingIntervals w) j = None \<Longrightarrow> stopPolling j w = w"
  by (simp add: stopPolling_def)

lemma stopPolling_present:
  "map_of (pollingIntervals w) j = Some t \<Longrightarrow> t \<noteq> 0 \<Longrightarrow>
   stopPolling j w =
     w\<lparr>timers := AList.delete t (timers w),
       pollingIntervals := AList.delete j (pollingIntervals w)\<rparr>"
  by (simp add: stopPolling_def clearInterval_def)

lemma stopPolling_handled:
  assumes "handles_ok w" and "map_of (pollingIntervals w) j = Some t"
  shows "stopPolling j w =
     w\<lparr>timers := AList.delete t (timers w),
       pollingIntervals := AList.delete j (pollingIntervals w)\<rparr>"
  using stopPolling_present [OF assms(2)] handles_ok_handle(2) [OF assms] by simp

lemma handles_ok_stopPolling:
  assumes "handles_ok w"
  shows "handles_ok (stopPolling j w)"
proof (cases "map_of (pollingIntervals w) j")
  case None
  then show ?thesis using assms by (simp add: stopPolling_absent)
next
  case (Some t)
  note sp = stopPolling_handled [OF assms Some]
  obtain ms where tj: "map_of (timers w) t = Some (j, ms)"
    using handles_ok_handle(1) [OF assms Some] by blast
  show ?thesis
  proof (rule handles_okI)
    show "0 < next_timer (stopPolling j w)"
      using handles_ok_next [OF assms] by (simp add: sp)
    show "distinct (map fst (timers (stopPolling j w)))"
      using handles_ok_distinct [OF assms] by (simp add: sp distinct_delete)
  next
    fix t' j' ms'
    assume "(t', j', ms') \<in> set (timers (stopPolling j w))"
    then have mem: "(t', j', ms') \<in> set (timers w)" and ne: "t' \<noteq> t"
      by (auto simp: sp set_delete)
    have "j' \<noteq> j" using handles_okD(1) [OF assms mem] Some ne by auto
    then show "map_of (pollingIntervals (stopPolling j w)) j' = Some t' \<and> 0 < t'
        \<and> t' < next_timer (stopPolling j w)"
      using handles_okD [OF assms mem] by (simp add: sp delete_conv')
  next
    fix j' t'
    assume "(j', t') \<in> set (pollingIntervals (stopPolling j w))"
    then have mem: "(j', t') \<in> set (pollingIntervals w)" and ne: "j' \<noteq> j"
      by (auto simp: sp set_delete)
    have e: "map_option fst (map_of (timers w) t') = Some j'"
      using handles_ok_entry [OF assms mem] .
    then have "t' \<noteq> t" using tj ne by auto
    then show "map_option fst (map_of (timers (stopPolling j w)) t') = Some j'"
      using e by (simp add: sp delete_conv')
  qed
qed

lemma stopPolling_gone:
  assumes "handles_ok w"
  shows "map_of (pollingIntervals (stopPolling j w)) j = None"
proof (cases "map_of (pollingIntervals w) j")
  case None
  then show ?thesis by (simp add: stopPolling_absent)
next
  case (Some t)
  show ?thesis by (simp add: stopPolling_handled [OF assms Some] delete_conv')
qed

lemma stopPolling_others:
  "j' \<noteq> j \<Longrightarrow> map_of (pollingIntervals (stopPolling j w)) j' = map_of (pollingIntervals w) j'"
  by (simp add: stopPolling_def clearInterval_def delete_conv' split: option.splits)

lemma timers_of_empty:
  assumes "handles_ok w" and "map_of (pollingIntervals w) j = None"
  shows "timers_of j w = []"
proof -
  have "j' \<noteq> j" if "(t, j', ms) \<in> set (timers w)" for t j' ms
    using handles_okD(1) [OF assms(1) that] assms(2) by auto
  then show ?thesis by (force simp: timers_of_def filter_empty_conv)
qed

lemma stopPolling_timers_of:
  assumes "handles_ok w"
  shows "timers_of j (stopPolling j w) = []"
  using timers_of_empty [OF handles_ok_stopPolling [OF assms] stopPolling_gone [OF assms]] .

lemma stopPolling_other_timers:
  assumes "handles_ok w"
  shows "other_timers j (stopPolling j w) = other_timers j w"
proof (cases "map_of (pollingIntervals w) j")
  case None
  then show ?thesis by (simp add: stopPolling_absent)
next
  case (Some t)
  obtain ms0 where tj: "map_of (timers w) t = Some (j, ms0)"
    using handles_ok_handle(1) [OF assms Some] by blast
  have "fst e \<noteq> t" if "e \<in> set (timers w)" "fst (snd e) \<noteq> j" for e
  proof -
    obtain t' j' ms where e: "e = (t', j', ms)" by (cases e) auto
    have "map_of (timers w) t' = Some (j', ms)"
      using handles_ok_distinct [OF assms] that(1) e by (simp add: map_of_is_SomeI)
    then show ?thesis using tj that(2) e by auto
  qed
  then have "filter (\<lambda>e. fst (snd e) \<noteq> j) (AList.delete t (timers w)) =
      filter (\<lambda>e. fst (snd e) \<noteq> j) (timers w)"
    unfolding AList.delete_eq filter_filter
    by (intro filter_cong refl) (auto simp: case_prod_beta)
  then show ?thesis by (simp add: other_timers_def stopPolling_handled [OF assms Some])
qed

lemma stopPolling_old_timer:
  assumes "handles_ok w" and "map_of (pollingIntervals w) j = Some t"
  shows "map_of (timers (stopPolling j w)) t = None"
  by (simp add: stopPolling_handled [OF assms] delete_conv')

lemma stopPolling_fields:
  "jobs (stopPolling j w) = jobs w" "requests (stopPolling j w) = requests w"
  "currentResults (stopPolling j w) = currentResults w" "isLoading (stopPolling j w) = isLoading w"
  "error (stopPolling j w) = error w" "console_errors (stopPolling j w) = console_errors w"
  "next_timer (stopPolling j w) = next_timer w"
  by (simp_all add: stopPolling_def clearInterval_def split: option.splits)

lemma clear_all_timers:
  "timers (foldl (\<lambda>w' entry. clearInterval (snd entry) w') w es) =
     filter (\<lambda>x. fst x \<notin> snd ` set es) (timers w)"
  by (induction es arbitrary: w) (auto simp: clearInterval_def AList.delete_eq intro: filter_cong)

lemma clear_all_fields:
  "next_timer (foldl (\<lambda>w' entry. clearInterval (snd entry) w') w es) = next_timer w"
  by (induction es arbitrary: w) (simp_all add: clearInterval_def)

lemma stopAllPolling_timers:
  assumes "handles_ok w"
  shows "timers (stopAllPolling w) = []"
proof -
  have "fst x \<in> snd ` set (pollingIntervals w)" if "x \<in> set (timers w)" for x
  proof -
    obtain t j ms where x: "x = (t, j, ms)" by (cases x) auto
    have "map_of (pollingIntervals w) j = Some t" using handles_okD(1) [OF assms] that x by blast
    then have "(j, t) \<in> set (pollingIntervals w)" by (rule map_of_SomeD)
    then show ?thesis using x by force
  qed
  then show ?thesis by (simp add: stopAllPolling_def clear_all_timers filter_empty_conv)
qed

lemma handles_ok_stopAllPolling:
  assumes "handles_ok w"
  shows "handles_ok (stopAllPolling w)"
proof -
  have "pollingIntervals (stopAllPolling w) = []" by (simp add: stopAllPolling_def)
  moreover have "next_timer (stopAllPolling w) = next_timer w"
    by (simp add: stopAllPolling_def clear_all_fields)
  ultimately show ?thesis
    using stopAllPolling_timers [OF assms] handles_ok_next [OF assms]
    by (simp add: handles_ok_def)
qed

lemma handles_ok_reset:
  assumes "handles_ok w"
  shows "handles_ok (reset w)"
  using handles_ok_stopAllPolling [OF assms]
  by (simp add: reset_def handles_ok_def stopAllPolling_def)

lemma handles_ok_timer_fires: "handles_ok (timer_fires t w) = handles_ok w"
  by (auto simp: timer_fires_def handles_ok_def split: option.splits)

lemma handles_ok_fetchResults_settled: "handles_ok (fetchResults_settled r w) = handles_ok w"
  by (auto simp: fetchResults_settled_def handles_ok_def split: settled.splits)

lemma stopPolling_jobs_update:
  "stopPolling j (w\<lparr>jobs := x\<rparr>) = (stopPolling j w)\<lparr>jobs := x\<rparr>"
  by (simp add: stopPolling_def clearInterval_def split: option.splits)

lemma stopPolling_console_update:
  "stopPolling j (w\<lparr>console_errors := x\<rparr>) = (stopPolling j w)\<lparr>console_errors := x\<rparr>"
  by (simp add: stopPolling_def clearInterval_def split: option.splits)

lemma status_settled_rejected:
  "status_settled j (Rejected msg) w =
     (stopPolling j w)\<lparr>console_errors := console_errors w @ [msg]\<rparr>"
  by (simp add: status_settled_def stopPolling_console_update)

lemma status_settled_terminal:
  "status job = Completed \<or> status job = Failed \<Longrightarrow>
   status_settled j (Fulfilled job) w =
     (if status job = Completed then fetchResults_called j else id)
       ((stopPolling j w)\<lparr>jobs := map (\<lambda>x. if job_id x = j then job else x) (jobs w)\<rparr>)"
  by (auto simp: status_settled_def Let_def stopPolling_jobs_update)

lemma status_settled_running:
  "status job \<noteq> Completed \<Longrightarrow> status job \<noteq> Failed \<Longrightarrow>
   status_settled j (Fulfilled job) w =
     w\<lparr>jobs := map (\<lambda>x. if job_id x = j then job else x) (jobs w)\<rparr>"
  by (simp add: status_settled_def Let_def)

lemma handles_ok_status_settled:
  assumes "handles_ok w"
  shows "handles_ok (status_settled j r w)"
proof (cases r)
  case (Rejected msg)
  have "handles_ok ((stopPolling j w)\<lparr>console_errors := console_errors w @ [msg]\<rparr>) =
      handles_ok (stopPolling j w)"
    by (rule handles_ok_cong) simp_all
  then show ?thesis using handles_ok_stopPolling [OF assms] Rejected
    by (simp add: status_settled_rejected)
next
  case (Fulfilled job)
  show ?thesis
  proof (cases "status job = Completed \<or> status job = Failed")
    case True
    have "handles_ok (status_settled j (Fulfilled job) w) = handles_ok (stopPolling j w)"
      by (rule handles_ok_cong)
         (simp_all add: status_settled_terminal [OF True] fetchResults_called_def)
    then show ?thesis using handles_ok_stopPolling [OF assms] Fulfilled by simp
  next
    case False
    have "handles_ok (status_settled j (Fulfilled job) w) = handles_ok w"
      by (rule handles_ok_cong) (use False in \<open>simp_all add: status_settled_running\<close>)
    then show ?thesis using assms Fulfilled by simp
  qed
qed

lemma handles_ok_step: "handles_ok w \<Longrightarrow> handles_ok (step w a)"
  by (cases a)
     (simp_all add: handles_ok_startPolling handles_ok_stopPolling handles_ok_stopAllPolling
        handles_ok_reset handles_ok_timer_fires handles_ok_status_settled
        handles_ok_fetchResults_settled)

lemma handles_ok_foldl: "handles_ok w \<Longrightarrow> handles_ok (foldl step w acts)"
  by (induction acts arbitrary: w) (simp_all add: handles_ok_step)

lemma handles_ok_run: "handles_ok (run_actions acts)"
  by (simp add: run_actions_def handles_ok_foldl handles_ok_init)

lemma timers_of_le_one:
  assumes "handles_ok w"
  shows "length (timers_of j w) \<le> 1"
proof (cases "map_of (pollingIntervals w) j")
  case None
  then show ?thesis using timers_of_empty [OF assms] by simp
next
  case (Some t)
  have d: "distinct (timers_of j w)"
    using handles_ok_distinct [OF assms] by (simp add: timers_of_def distinct_map_filter)
  have "set (timers_of j w) \<subseteq> {t}"
  proof
    fix t' assume "t' \<in> set (timers_of j w)"
    then obtain ms where "(t', j, ms) \<in> set (timers w)" by (force simp: timers_of_def)
    then have "map_of (pollingIntervals w) j = Some t'" using handles_okD(1) [OF assms] by blast
    then show "t' \<in> {t}" using Some by simp
  qed
  then have "card (set (timers_of j w)) \<le> card {t}" by (intro card_mono) simp_all
  then show ?thesis using d by (simp add: distinct_card)
qed

lemma timers_of_handle:
  assumes "handles_ok w" and "map_of (pollingIntervals w) j = Some t"
  shows "timers_of j w = [t]"
proof -
  obtain ms where "map_of (timers w) t = Some (j, ms)"
    using handles_ok_handle(1) [OF assms] by blast
  then have "(t, j, ms) \<in> set (timers w)" by (rule map_of_SomeD)
  then have m: "t \<in> set (timers_of j w)" by (force simp: timers_of_def)
  then have "timers_of j w \<noteq> []" by auto
  moreover have "length (timers_of j w) \<le> 1" using timers_of_le_one [OF assms(1)] .
  ultimately obtain x where "timers_of j w = [x]"
    by (cases "timers_of j w") (auto simp: Suc_le_eq)
  then show ?thesis using m by simp
qed

lemma startPolling_registers:
  "\<exists>t. map_of (pollingIntervals (startPolling j ms w)) j = Some t"
  by (cases "map_of (pollingIntervals w) j")
     (simp_all add: startPolling_absent startPolling_present update_conv')

lemma scenario_B_state:
  "run_actions scenario_B =
     init_world\<lparr>timers := [(1, lit ''job-1'', 2000)], next_timer := 2,
       pollingIntervals := [(lit ''job-1'', 1)],
       requests := [GetJobStatus (lit ''job-1''), GetJobStatus (lit ''job-1''),
                    GetJobStatus (lit ''job-1''), GetJobStatus (lit ''job-1'')]\<rparr>"
  by (simp add: scenario_B_def run_actions_def init_world_def startPolling_def setInterval_def
      timer_fires_def status_settled_def sample_job_def)

lemma two_jobs_state:
  "two_jobs =
     init_world\<lparr>jobs := [sample_job Running],
       timers := [(1, lit ''job-1'', 2000), (2, lit ''job-2'', 500)], next_timer := 3,
       pollingIntervals := [(lit ''job-1'', 1), (lit ''job-2'', 2)]\<rparr>"
  by (simp add: two_jobs_def run_actions_def init_world_def startPolling_def setInterval_def lit_def)

section \<open>The claims about the stream transformer\<close>

text \<open>
  Claim C1, as the specification states it: one stream emits at most one finish event, and
  after the first \<^verbatim>\<open>done\<close> event every further backend event is dropped. The transformer
  keeps no flag for this. Fed two \<^verbatim>\<open>done\<close> frames and then a token frame, it emits two
  finish events and then the text delta of the token.
\<close>

theorem C1_second_done_counterexample:
  "enqueued (transformAgentStreamToUIStream sample_platform
     [Value (bytes_of done_frame @ [0xA] @ bytes_of done_frame @ [0xA] @ bytes_of token_frame @ [0xA]),
      ReadDone]) =
   [Finish (lit ''stop'') 0 0 0, Finish (lit ''stop'') 0 0 0, TextDelta (Some (JStr (lit ''Hi'')))]"
  by (simp add: eval_defs)

text \<open>
  Claim C1, amended to what the transformer does: every \<^verbatim>\<open>done\<close> event emits one finish
  event, whatever came before it, so the number of finish events emitted by a sequence of
  lines is the number of \<^verbatim>\<open>done\<close> events among its backend events. No flag is kept: what
  later lines enqueue does not depend on the lines before them, each line enqueues what it
  would on a fresh stream. A second \<^verbatim>\<open>done\<close> so emits a second finish event, and a token
  event after a \<^verbatim>\<open>done\<close> emits its text delta as before it, which is when the content
  can be coerced to a string.
\<close>

theorem C1_finish_for_every_done:
  "finishes (enqueued (process_lines P s ls)) =
     finishes (enqueued s) + length (filter is_done (backend_events P ls)) \<and>
   enqueued (process_lines P s (xs @ ys)) =
     enqueued (process_lines P s xs) @ concat (map (line_events P) ys) \<and>
   text_deltas (enqueued (process_lines P s ls)) =
     text_deltas (enqueued s) @ filter (coercible P) (token_contents (backend_events P ls))"
  by (simp add: process_lines_enqueued lines_finishes lines_text_deltas)

theorem C1_finish_for_every_done_witness:
  "finishes (enqueued (process_lines sample_platform (start_state sample_platform)
      [lit done_frame, lit done_frame, lit token_frame])) = 2 \<and>
   text_deltas (enqueued (process_lines sample_platform (start_state sample_platform)
      [lit done_frame, lit done_frame, lit token_frame])) = [Some (JStr (lit ''Hi''))]"
proof -
  note t = C1_finish_for_every_done [of sample_platform "start_state sample_platform"
      "[lit done_frame, lit done_frame, lit token_frame]"]
  show ?thesis
    using t [THEN conjunct1] t [THEN conjunct2, THEN conjunct2]
    unfolding sample_events
    by (simp add: is_done_def is_token_def event_type_def get_prop_def coercible_def
        string_of_def token_contents_def finishes_def start_state_def lit_def)
qed

text \<open>
  Claim C2: the decoded lines, and with them the whole result of the transformer (the events
  enqueued, the console, the buffer and the state of the decoder), depend on the bytes of
  the stream only and not on how they are cut into chunks. Two lists of chunks with the
  same concatenation give the same lines and the same result, also when a cut falls inside
  a line or inside a multi-byte character.
\<close>

theorem C2_chunk_boundary_independence:
  assumes "concat cs = concat cs'"
  shows "decoded_lines cs = decoded_lines cs' \<and>
         transformAgentStreamToUIStream P (map Value cs @ rest) =
           transformAgentStreamToUIStream P (map Value cs' @ rest)"
proof -
  have "frame_all (text_decoder_init, []) xs = snd (frame_chunk (text_decoder_init, []) (concat xs))" for xs
    using frame_concat [of "(text_decoder_init, [])" xs] by simp
  then have "decoded_lines cs = decoded_lines cs'"
    using assms by (simp add: decoded_lines_def)
  then show ?thesis using assms by (simp add: transform_chunks)
qed

theorem C2_chunk_boundary_independence_witness:
  "concat [bytes_of ''data: '' @ [0xE2, 0x82], [0xAC, 0xA]] = concat [bytes_of ''data: '' @ [0xE2, 0x82, 0xAC, 0xA]] \<and>
   decoded_lines [bytes_of ''data: '' @ [0xE2, 0x82], [0xAC, 0xA]] = [lit ''data: '' @ [0x20AC]] \<and>
   decoded_lines [bytes_of ''data: '' @ [0xE2, 0x82, 0xAC, 0xA]] = [lit ''data: '' @ [0x20AC]] \<and>
   transformAgentStreamToUIStream sample_platform
       (map Value [bytes_of ''data: '' @ [0xE2, 0x82], [0xAC, 0xA]] @ [ReadDone]) =
     transformAgentStreamToUIStream sample_platform
       (map Value [bytes_of ''data: '' @ [0xE2, 0x82, 0xAC, 0xA]] @ [ReadDone])"
proof -
  have c: "concat [bytes_of ''data: '' @ [0xE2, 0x82], [0xAC, 0xA]] = concat [bytes_of ''data: '' @ [0xE2, 0x82, 0xAC, 0xA]]"
    by simp
  have v: "decoded_lines [bytes_of ''data: '' @ [0xE2, 0x82, 0xAC, 0xA]] = [lit ''data: '' @ [0x20AC]]"
    by (simp add: eval_defs)
  show ?thesis
    using C2_chunk_boundary_independence [OF c, of sample_platform "[ReadDone]"] c v by simp
qed

text \<open>
  Claim C3 says that a backend event of type \<^verbatim>\<open>error\<close> emits an error event with its
  message and ends the stream. The switch of the transformer has no case for
  \<^verbatim>\<open>error\<close>: on the stream that consists of one error frame it enqueues nothing, logs
  nothing, and closes the stream as if it had ended well.
\<close>

theorem C3_error_event_dropped:
  "enqueued (transformAgentStreamToUIStream sample_platform
     [Value (bytes_of error_frame @ [0xA]), ReadDone]) = [] \<and>
   console (transformAgentStreamToUIStream sample_platform
     [Value (bytes_of error_frame @ [0xA]), ReadDone]) = [] \<and>
   controller (transformAgentStreamToUIStream sample_platform
     [Value (bytes_of error_frame @ [0xA]), ReadDone]) = Closed"
  by (simp add: eval_defs)

text \<open>
  Claim C6, as the specification states it: the consumer never sees the stream close without
  a finish event or an error. A stream that carries one token frame and then ends is closed
  by the transformer after the text delta, with neither.
\<close>

theorem C6_silent_close_counterexample:
  "enqueued (transformAgentStreamToUIStream sample_platform
     [Value (bytes_of token_frame @ [0xA]), ReadDone]) = [TextDelta (Some (JStr (lit ''Hi'')))] \<and>
   controller (transformAgentStreamToUIStream sample_platform
     [Value (bytes_of token_frame @ [0xA]), ReadDone]) = Closed"
  by (simp add: eval_defs)

text \<open>
  Claim C6, amended to what the transformer does: when the upstream ends, the consumer
  observes the events of the complete lines and then the normal end of the stream; when a
  read of the upstream fails, the consumer observes a partial sequence, those of these
  events that it had read by then, a prefix of them, and then the error, once; in both cases
  the lock of the reader is released. The events hold one finish event for each
  \<^verbatim>\<open>done\<close> event and no other, so that an upstream that ends without a \<^verbatim>\<open>done\<close>
  event ends the stream with neither a finish event nor an error.
\<close>

theorem C6_close_or_error:
  "consumer_observes n (transformAgentStreamToUIStream P (map Value cs @ ReadDone # rest)) =
     (concat (map (line_events P) (decoded_lines cs)), Closed) \<and>
   consumer_observes n (transformAgentStreamToUIStream P (map Value cs @ ReadError e # rest)) =
     (take n (concat (map (line_events P) (decoded_lines cs))), Errored e) \<and>
   \<not> reader_locked (transformAgentStreamToUIStream P (map Value cs @ ReadDone # rest)) \<and>
   \<not> reader_locked (transformAgentStreamToUIStream P (map Value cs @ ReadError e # rest)) \<and>
   finishes (concat (map (line_events P) (decoded_lines cs))) =
     length (filter is_done (backend_events P (decoded_lines cs)))"
  by (simp add: consumer_observes_def transform_end transform_enqueued lines_finishes)

theorem C6_close_or_error_witness:
  "consumer_observes 0 (transformAgentStreamToUIStream sample_platform
      (map Value [bytes_of token_frame @ [0xA]] @ [ReadDone])) =
     ([TextDelta (Some (JStr (lit ''Hi'')))], Closed) \<and>
   consumer_observes 0 (transformAgentStreamToUIStream sample_platform
      (map Value [bytes_of token_frame @ [0xA]] @ [ReadError (lit ''reset'')])) =
     ([], Errored (lit ''reset'')) \<and>
   consumer_observes 1 (transformAgentStreamToUIStream sample_platform
      (map Value [bytes_of token_frame @ [0xA]] @ [ReadError (lit ''reset'')])) =
     ([TextDelta (Some (JStr (lit ''Hi'')))], Errored (lit ''reset'')) \<and>
   finishes (concat (map (line_events sample_platform)
      (decoded_lines [bytes_of token_frame @ [0xA]]))) = 0"
proof -
  have v: "concat (map (line_events sample_platform) (decoded_lines [bytes_of token_frame @ [0xA]])) =
      [TextDelta (Some (JStr (lit ''Hi'')))]"
    by (simp add: line_events_def eval_defs)
  note t0 = C6_close_or_error [of 0 sample_platform "[bytes_of token_frame @ [0xA]]" "[]" "lit ''reset''"]
  note t1 = C6_close_or_error [of 1 sample_platform "[bytes_of token_frame @ [0xA]]" "[]" "lit ''reset''"]
  have a: "consumer_observes 0 (transformAgentStreamToUIStream sample_platform
      (map Value [bytes_of token_frame @ [0xA]] @ [ReadDone])) =
     ([TextDelta (Some (JStr (lit ''Hi'')))], Closed)"
    using t0 [THEN conjunct1] unfolding v .
  have b: "consumer_observes 0 (transformAgentStreamToUIStream sample_platform
      (map Value [bytes_of token_frame @ [0xA]] @ [ReadError (lit ''reset'')])) =
     ([], Errored (lit ''reset''))"
    using t0 [THEN conjunct2, THEN conjunct1] unfolding v by simp
  have c: "consumer_observes 1 (transformAgentStreamToUIStream sample_platform
      (map Value [bytes_of token_frame @ [0xA]] @ [ReadError (lit ''reset'')])) =
     ([TextDelta (Some (JStr (lit ''Hi'')))], Errored (lit ''reset''))"
    using t1 [THEN conjunct2, THEN conjunct1] unfolding v by simp
  have d: "finishes (concat (map (line_events sample_platform)
      (decoded_lines [bytes_of token_frame @ [0xA]]))) = 0"
    unfolding v by (simp add: finishes_def)
  show ?thesis using a b c d by blast
qed






text \<open>
  Claim C10: a line that begins with \<^verbatim>\<open>data:\<close> but not with \<^verbatim>\<open>data:\<close> and a space is
  not a data line: the transformer does not parse it, the state stays as it is, and no
  backend event and no event for the consumer comes of it.
\<close>

theorem C10_data_prefix_needs_space:
  assumes "startsWith l (lit ''data:'')" and "\<not> startsWith l (lit ''data: '')"
  shows "process_line P s l = s \<and> line_events P l = [] \<and> backend_events P [l] = []"
  using assms(2)
  by (simp add: process_line_other line_events_def start_state_def backend_events_def
      List.map_filter_simps data_line_iff)

theorem C10_data_prefix_needs_space_witness:
  \<open>startsWith (lit ''data:{"type":"token","content":"Hi"}'') (lit ''data:'') \<and>
   \<not> startsWith (lit ''data:{"type":"token","content":"Hi"}'') (lit ''data: '') \<and>
   process_line sample_platform (start_state sample_platform)
      (lit ''data:{"type":"token","content":"Hi"}'') = start_state sample_platform \<and>
   line_events sample_platform (lit ''data:{"type":"token","content":"Hi"}'') = []\<close>
proof -
  have a: \<open>startsWith (lit ''data:{"type":"token","content":"Hi"}'') (lit ''data:'')\<close>
    by (simp add: startsWith_def lit_def)
  have b: \<open>\<not> startsWith (lit ''data:{"type":"token","content":"Hi"}'') (lit ''data: '')\<close>
    by (simp add: startsWith_def lit_def)
  show ?thesis
    using C10_data_prefix_needs_space [OF a b, of sample_platform "start_state sample_platform"] a b
    by simp
qed

section \<open>The claims about the poller\<close>

text \<open>
  Claim C4: in a state where handles and timers correspond, as in every state that the
  operations of the store reach, a second \<^verbatim>\<open>startPolling\<close> for the same job changes
  nothing; after the two calls the job has one handle, this handle is the only active timer
  that polls the job, and a tick of it issues one status fetch. At any time a job has at most
  one active timer.
\<close>

theorem C4_one_handle_per_job:
  assumes "handles_ok w"
  shows "startPolling j ms' (startPolling j ms w) = startPolling j ms w \<and>
         (\<exists>t. map_of (pollingIntervals (startPolling j ms' (startPolling j ms w))) j = Some t \<and>
              timers_of j (startPolling j ms' (startPolling j ms w)) = [t] \<and>
              requests (timer_fires t (startPolling j ms' (startPolling j ms w))) =
                requests w @ [GetJobStatus j]) \<and>
         length (timers_of j' w) \<le> 1 \<and>
         length (timers_of j' (run_actions acts :: 'r world)) \<le> 1"
proof -
  let ?w1 = "startPolling j ms w"
  have ok1: "handles_ok ?w1" using handles_ok_startPolling [OF assms] .
  obtain t where t: "map_of (pollingIntervals ?w1) j = Some t"
    using startPolling_registers by blast
  then have idem: "startPolling j ms' ?w1 = ?w1" by (simp add: startPolling_present)
  have one: "timers_of j ?w1 = [t]" using timers_of_handle [OF ok1 t] .
  obtain m where "map_of (timers ?w1) t = Some (j, m)"
    using handles_ok_handle(1) [OF ok1 t] by blast
  moreover have "requests ?w1 = requests w"
    by (cases "map_of (pollingIntervals w) j")
       (simp_all add: startPolling_absent startPolling_present)
  ultimately have fire: "requests (timer_fires t ?w1) = requests w @ [GetJobStatus j]"
    by (simp add: timer_fires_def)
  show ?thesis
    using idem t one fire timers_of_le_one [OF assms, of j']
      timers_of_le_one [OF handles_ok_run, of j' acts]
    by auto
qed

theorem C4_one_handle_per_job_witness:
  "handles_ok (init_world :: unit world) \<and>
   startPolling (lit ''job-1'') None (startPolling (lit ''job-1'') None (init_world :: unit world)) =
     startPolling (lit ''job-1'') None init_world \<and>
   timers (startPolling (lit ''job-1'') None (startPolling (lit ''job-1'') None (init_world :: unit world))) =
     [(1, lit ''job-1'', 2000)] \<and>
   pollingIntervals (startPolling (lit ''job-1'') None (startPolling (lit ''job-1'') None (init_world :: unit world))) =
     [(lit ''job-1'', 1)] \<and>
   requests (timer_fires 1 (startPolling (lit ''job-1'') None (startPolling (lit ''job-1'') None (init_world :: unit world)))) =
     [GetJobStatus (lit ''job-1'')]"
proof -
  have h: "handles_ok (init_world :: unit world)" by (simp add: handles_ok_def init_world_def)
  have v: "startPolling (lit ''job-1'') None (init_world :: unit world) =
      init_world\<lparr>timers := [(1, lit ''job-1'', 2000)], next_timer := 2,
        pollingIntervals := [(lit ''job-1'', 1)]\<rparr>"
    by (simp add: startPolling_def setInterval_def init_world_def)
  have idem: "startPolling (lit ''job-1'') None (startPolling (lit ''job-1'') None (init_world :: unit world)) =
      startPolling (lit ''job-1'') None init_world"
    using C4_one_handle_per_job [OF h, of "lit ''job-1''" None None] by blast
  note d = trans [OF idem v]
  have c3: "timers (startPolling (lit ''job-1'') None (startPolling (lit ''job-1'') None (init_world :: unit world))) =
     [(1, lit ''job-1'', 2000)]"
    unfolding d by simp
  have c4: "pollingIntervals (startPolling (lit ''job-1'') None (startPolling (lit ''job-1'') None (init_world :: unit world))) =
     [(lit ''job-1'', 1)]"
    unfolding d by simp
  have c5: "requests (timer_fires 1 (startPolling (lit ''job-1'') None (startPolling (lit ''job-1'') None (init_world :: unit world)))) =
     [GetJobStatus (lit ''job-1'')]"
    unfolding d by (simp add: timer_fires_def init_world_def)
  show ?thesis using h idem c3 c4 c5 by blast
qed

text \<open>
  Claim C5: when the status fetch of a tick returns a job that is completed or failed, the
  continuation of the tick removes the handle of the job and clears its timer, so that the
  timer does not tick again, and it issues one results fetch when the job is completed and
  none when it has failed.
\<close>

theorem C5_terminal_status_stops_polling:
  assumes "handles_ok w" and "status job = Completed \<or> status job = Failed"
  shows "map_of (pollingIntervals (status_settled j (Fulfilled job) w)) j = None \<and>
         timers_of j (status_settled j (Fulfilled job) w) = [] \<and>
         (\<forall>t. map_of (pollingIntervals w) j = Some t \<longrightarrow>
              timer_fires t (status_settled j (Fulfilled job) w) =
                status_settled j (Fulfilled job) w) \<and>
         requests (status_settled j (Fulfilled job) w) =
           requests w @ (if status job = Completed then [GetJobResults j] else [])"
proof -
  let ?w' = "status_settled j (Fulfilled job) w"
  note ss = status_settled_terminal [OF assms(2), of j w]
  have pi: "pollingIntervals ?w' = pollingIntervals (stopPolling j w)"
    and ti: "timers ?w' = timers (stopPolling j w)"
    by (simp_all add: ss fetchResults_called_def)
  have a: "map_of (pollingIntervals ?w') j = None"
    using stopPolling_gone [OF assms(1)] by (simp add: pi)
  have b: "timers_of j ?w' = []"
    using stopPolling_timers_of [OF assms(1), of j] by (simp add: timers_of_def ti)
  have c: "timer_fires t ?w' = ?w'" if "map_of (pollingIntervals w) j = Some t" for t
    using stopPolling_old_timer [OF assms(1) that] by (simp add: timer_fires_def ti)
  have d: "requests ?w' = requests w @ (if status job = Completed then [GetJobResults j] else [])"
    by (simp add: ss fetchResults_called_def stopPolling_fields)
  show ?thesis using a b c d by blast
qed

theorem C5_terminal_status_stops_polling_witness:
  "handles_ok (run_actions scenario_B) \<and>
   pollingIntervals (status_settled (lit ''job-1'') (Fulfilled (sample_job Completed))
      (run_actions scenario_B)) = [] \<and>
   timers (status_settled (lit ''job-1'') (Fulfilled (sample_job Completed))
      (run_actions scenario_B)) = [] \<and>
   requests (status_settled (lit ''job-1'') (Fulfilled (sample_job Completed))
      (run_actions scenario_B)) =
     [GetJobStatus (lit ''job-1''), GetJobStatus (lit ''job-1''), GetJobStatus (lit ''job-1''),
      GetJobStatus (lit ''job-1''), GetJobResults (lit ''job-1'')] \<and>
   requests (status_settled (lit ''job-1'') (Fulfilled (sample_job Failed))
      (run_actions scenario_B)) =
     [GetJobStatus (lit ''job-1''), GetJobStatus (lit ''job-1''), GetJobStatus (lit ''job-1''),
      GetJobStatus (lit ''job-1'')] \<and>
   timer_fires 1 (status_settled (lit ''job-1'') (Fulfilled (sample_job Completed))
      (run_actions scenario_B)) =
     status_settled (lit ''job-1'') (Fulfilled (sample_job Completed)) (run_actions scenario_B)"
proof -
  have h: "handles_ok (run_actions scenario_B)" by (rule handles_ok_run)
  have s1: "status (sample_job Completed) = Completed \<or> status (sample_job Completed) = Failed"
    and s2: "status (sample_job Failed) = Completed \<or> status (sample_job Failed) = Failed"
    by (simp_all add: sample_job_def)
  have sc: "status (sample_job Completed) = Completed" by (simp add: sample_job_def)
  have m: "map_of (pollingIntervals (run_actions scenario_B)) (lit ''job-1'') = Some 1"
    by (simp add: scenario_B_state)
  have st: "stopPolling (lit ''job-1'') (run_actions scenario_B) =
      (run_actions scenario_B)\<lparr>timers := [], pollingIntervals := []\<rparr>"
    by (simp add: scenario_B_state stopPolling_def clearInterval_def)
  have p: "pollingIntervals (status_settled (lit ''job-1'') (Fulfilled (sample_job Completed))
      (run_actions scenario_B)) = []"
    and t: "timers (status_settled (lit ''job-1'') (Fulfilled (sample_job Completed))
      (run_actions scenario_B)) = []"
    using sc by (simp_all add: status_settled_terminal [OF s1] st fetchResults_called_def)
  note c1 = C5_terminal_status_stops_polling [OF h s1, of "lit ''job-1''"]
  note c2 = C5_terminal_status_stops_polling [OF h s2, of "lit ''job-1''"]
  have r1: "requests (status_settled (lit ''job-1'') (Fulfilled (sample_job Completed))
      (run_actions scenario_B)) = requests (run_actions scenario_B) @ [GetJobResults (lit ''job-1'')]"
    using c1 by (simp add: sample_job_def)
  have r2: "requests (status_settled (lit ''job-1'') (Fulfilled (sample_job Failed))
      (run_actions scenario_B)) = requests (run_actions scenario_B)"
    using c2 by (simp add: sample_job_def)
  have f: "timer_fires 1 (status_settled (lit ''job-1'') (Fulfilled (sample_job Completed))
      (run_actions scenario_B)) =
     status_settled (lit ''job-1'') (Fulfilled (sample_job Completed)) (run_actions scenario_B)"
    using c1 m by blast
  show ?thesis using h p t r1 r2 f by (simp add: scenario_B_state)
qed

text \<open>
  Claim C7: when the status fetch of a tick is rejected, the continuation of the tick leaves
  the jobs of the store as they are, removes the handle of this job and clears its timer,
  leaves the handles and the timers of all other jobs as they are, and issues no request.
\<close>

theorem C7_transport_error_stops_one_job:
  assumes "handles_ok w"
  shows "jobs (status_settled j (Rejected msg) w) = jobs w \<and>
         map_of (pollingIntervals (status_settled j (Rejected msg) w)) j = None \<and>
         timers_of j (status_settled j (Rejected msg) w) = [] \<and>
         (\<forall>j'. j' \<noteq> j \<longrightarrow>
            map_of (pollingIntervals (status_settled j (Rejected msg) w)) j' =
              map_of (pollingIntervals w) j') \<and>
         other_timers j (status_settled j (Rejected msg) w) = other_timers j w \<and>
         requests (status_settled j (Rejected msg) w) = requests w"
proof -
  let ?w' = "status_settled j (Rejected msg) w"
  have pi: "pollingIntervals ?w' = pollingIntervals (stopPolling j w)"
    and ti: "timers ?w' = timers (stopPolling j w)"
    by (simp_all add: status_settled_rejected)
  have a: "jobs ?w' = jobs w" "requests ?w' = requests w"
    by (simp_all add: status_settled_rejected stopPolling_fields)
  have b: "map_of (pollingIntervals ?w') j = None"
    using stopPolling_gone [OF assms] by (simp add: pi)
  have c: "timers_of j ?w' = []"
    using stopPolling_timers_of [OF assms, of j] by (simp add: timers_of_def ti)
  have d: "map_of (pollingIntervals ?w') j' = map_of (pollingIntervals w) j'" if "j' \<noteq> j" for j'
    using stopPolling_others [OF that] by (simp add: pi)
  have e: "other_timers j ?w' = other_timers j w"
    using stopPolling_other_timers [OF assms, of j] by (simp add: other_timers_def ti)
  show ?thesis using a b c d e by blast
qed

theorem C7_transport_error_stops_one_job_witness:
  "handles_ok two_jobs \<and>
   jobs (status_settled (lit ''job-1'') (Rejected (lit ''Failed to fetch'')) two_jobs) =
     [sample_job Running] \<and>
   pollingIntervals (status_settled (lit ''job-1'') (Rejected (lit ''Failed to fetch'')) two_jobs) =
     [(lit ''job-2'', 2)] \<and>
   timers (status_settled (lit ''job-1'') (Rejected (lit ''Failed to fetch'')) two_jobs) =
     [(2, lit ''job-2'', 500)] \<and>
   requests (status_settled (lit ''job-1'') (Rejected (lit ''Failed to fetch'')) two_jobs) = []"
proof -
  have h: "handles_ok two_jobs"
    by (simp add: two_jobs_state handles_ok_def init_world_def lit_def)
  have v: "pollingIntervals (status_settled (lit ''job-1'') (Rejected (lit ''Failed to fetch'')) two_jobs) =
     [(lit ''job-2'', 2)]"
    "timers (status_settled (lit ''job-1'') (Rejected (lit ''Failed to fetch'')) two_jobs) =
     [(2, lit ''job-2'', 500)]"
    by (simp_all add: two_jobs_state status_settled_def stopPolling_def clearInterval_def
        init_world_def lit_def)
  show ?thesis
    using C7_transport_error_stops_one_job [OF h, of "lit ''job-1''" "lit ''Failed to fetch''"] h v
    by (simp add: two_jobs_state init_world_def)
qed

end
